theory Spec2Isabelle
  imports Complex_Main
begin

section \<open>JavaScript values\<close>

text \<open>
  The adapter of \<^verbatim>\<open>app/services/gemini.server.js\<close> works on duck-typed JSON-like
  data: chat turns, content blocks, tool declarations, provider responses. They are modelled
  by one datatype of JavaScript values. An object is the list of its own enumerable
  properties in enumeration order (what \<^verbatim>\<open>for ... in\<close> with \<^verbatim>\<open>hasOwnProperty\<close> and the
  spread operator visit); a real object has each key once. Numbers are opaque payload for the
  adapter, which only tests them for truthiness and against zero.
\<close>

datatype jsval =
    JUndefined
  | JNull
  | JBool bool
  | JNum rat
  | JStr string
  | JArr "jsval list"
  | JObj "(string \<times> jsval) list"

text \<open>
  A thrown value. \<^verbatim>\<open>throw\<close> and a rejected promise carry any value: \<open>JsError name message\<close>
  is an error object of the class \<open>name\<close> whose \<^verbatim>\<open>message\<close> is the string \<open>message\<close>
  (\<^verbatim>\<open>new Error(message)\<close> and the errors of the runtime and of libraries), \<open>Thrown v\<close> is
  any other value \<open>v\<close>, \<^verbatim>\<open>null\<close> and \<^verbatim>\<open>undefined\<close> included.
\<close>

datatype js_error = JsError string string | Thrown jsval

definition TypeError :: "string \<Rightarrow> js_error" where
  "TypeError m = JsError ''TypeError'' m"

definition Error :: "string \<Rightarrow> js_error" where
  "Error m = JsError ''Error'' m"

text \<open>Sequencing of computations that may throw: the first error wins.\<close>

fun bindE :: "js_error + 'a \<Rightarrow> ('a \<Rightarrow> js_error + 'b) \<Rightarrow> js_error + 'b" where
  "bindE (Inl e) f = Inl e"
| "bindE (Inr v) f = f v"

text \<open>\<^verbatim>\<open>if (v)\<close>, \<^verbatim>\<open>v && ...\<close>, \<^verbatim>\<open>!!v\<close>, \<^verbatim>\<open>Boolean(v)\<close>.\<close>

fun truthy :: "jsval \<Rightarrow> bool" where
  "truthy JUndefined = False"
| "truthy JNull = False"
| "truthy (JBool b) = b"
| "truthy (JNum n) = (n \<noteq> 0)"
| "truthy (JStr s) = (s \<noteq> [])"
| "truthy (JArr xs) = True"
| "truthy (JObj kvs) = True"

fun nullish :: "jsval \<Rightarrow> bool" where
  "nullish JUndefined = True"
| "nullish JNull = True"
| "nullish v = False"

text \<open>
  \<^verbatim>\<open>v.k\<close> on a value that is neither \<^verbatim>\<open>null\<close> nor \<^verbatim>\<open>undefined\<close>, for the property
  names the adapter reads (none of them is a method or an array index): an own property of an
  object, the length of an array or a string, and \<^verbatim>\<open>undefined\<close> otherwise.
\<close>

fun js_prop :: "jsval \<Rightarrow> string \<Rightarrow> jsval" where
  "js_prop (JObj kvs) k = (case map_of kvs k of Some v \<Rightarrow> v | None \<Rightarrow> JUndefined)"
| "js_prop (JArr xs) k = (if k = ''length'' then JNum (of_nat (length xs)) else JUndefined)"
| "js_prop (JStr s) k = (if k = ''length'' then JNum (of_nat (length s)) else JUndefined)"
| "js_prop v k = JUndefined"

text \<open>\<^verbatim>\<open>v.k\<close> in general: reading a property of \<^verbatim>\<open>null\<close> or \<^verbatim>\<open>undefined\<close> throws.\<close>

definition js_get :: "jsval \<Rightarrow> string \<Rightarrow> js_error + jsval" where
  "js_get v k =
     (if nullish v then Inl (TypeError (''Cannot read properties of null or undefined (reading '' @ k @ '')''))
      else Inr (js_prop v k))"

text \<open>\<^verbatim>\<open>v?.k\<close>: \<^verbatim>\<open>undefined\<close> instead of the throw.\<close>

definition js_get_opt :: "jsval \<Rightarrow> string \<Rightarrow> jsval" where
  "js_get_opt v k = (if nullish v then JUndefined else js_prop v k)"

text \<open>\<^verbatim>\<open>v[0]\<close> on a value that is neither \<^verbatim>\<open>null\<close> nor \<^verbatim>\<open>undefined\<close>.\<close>

fun index0 :: "jsval \<Rightarrow> jsval" where
  "index0 (JArr []) = JUndefined"
| "index0 (JArr (x # xs)) = x"
| "index0 (JStr []) = JUndefined"
| "index0 (JStr (c # s)) = JStr [c]"
| "index0 (JObj kvs) = (case map_of kvs ''0'' of Some v \<Rightarrow> v | None \<Rightarrow> JUndefined)"
| "index0 v = JUndefined"

definition js_index0 :: "jsval \<Rightarrow> js_error + jsval" where
  "js_index0 v =
     (if nullish v then Inl (TypeError ''Cannot read properties of null or undefined (reading 0)'')
      else Inr (index0 v))"

text \<open>
  The operations of the language itself that the adapter calls and that are parameters of the
  model: \<^verbatim>\<open>JSON.parse\<close>, which returns the parsed value or throws, and the comparison
  \<^verbatim>\<open>v > 0\<close> for a string, array or object \<open>v\<close>, which converts \<open>v\<close> to a number first (and
  may throw in that conversion).
\<close>

record builtins =
  JSON_parse :: "jsval \<Rightarrow> js_error + jsval"
  coerce_gt0 :: "jsval \<Rightarrow> js_error + bool"

text \<open>
  \<^verbatim>\<open>v > 0\<close>. The adapter applies it to a \<^verbatim>\<open>length\<close> property only, which is a number for
  arrays and strings. \<^verbatim>\<open>true\<close> is 1, \<^verbatim>\<open>false\<close> and \<^verbatim>\<open>null\<close> are 0, \<^verbatim>\<open>undefined\<close> is
  NaN, which is not greater than 0; every other value goes through the conversion of the
  language.
\<close>

fun js_gt0 :: "builtins \<Rightarrow> jsval \<Rightarrow> js_error + bool" where
  "js_gt0 B (JNum n) = Inr (0 < n)"
| "js_gt0 B (JBool b) = Inr b"
| "js_gt0 B JNull = Inr False"
| "js_gt0 B JUndefined = Inr False"
| "js_gt0 B v = coerce_gt0 B v"

definition is_array :: "jsval \<Rightarrow> bool" where
  "is_array v = (case v of JArr xs \<Rightarrow> True | _ \<Rightarrow> False)"

definition is_string :: "jsval \<Rightarrow> bool" where
  "is_string v = (case v of JStr s \<Rightarrow> True | _ \<Rightarrow> False)"

section \<open>Stop reasons\<close>

text \<open>
  \<^verbatim>\<open>
  function mapFinishReason(reason) {
    switch (reason) {
      case 'STOP': return 'end_turn';
      case 'TOOL_USE': return 'tool_use';
      case 'MAX_TOKENS': return 'max_tokens';
      default: return 'end_turn';
    }
  }
  \<close>
  \<^verbatim>\<open>switch\<close> compares with strict equality, so only the three strings match.
\<close>

definition mapFinishReason :: "jsval \<Rightarrow> string" where
  "mapFinishReason reason =
     (if reason = JStr ''STOP'' then ''end_turn''
      else if reason = JStr ''TOOL_USE'' then ''tool_use''
      else if reason = JStr ''MAX_TOKENS'' then ''max_tokens''
      else ''end_turn'')"

section \<open>History translation\<close>

text \<open>\<^verbatim>\<open>xs.map(f)\<close> with a callback that may throw: the first throw ends the traversal.\<close>

fun mapE :: "('a \<Rightarrow> js_error + 'b) \<Rightarrow> 'a list \<Rightarrow> js_error + 'b list" where
  "mapE f [] = Inr []"
| "mapE f (x # xs) = bindE (f x) (\<lambda>y. bindE (mapE f xs) (\<lambda>ys. Inr (y # ys)))"

text \<open>\<^verbatim>\<open>xs.filter(p)\<close> with a callback that may throw.\<close>

fun filterE :: "('a \<Rightarrow> js_error + bool) \<Rightarrow> 'a list \<Rightarrow> js_error + 'a list" where
  "filterE p [] = Inr []"
| "filterE p (x # xs) =
     bindE (p x) (\<lambda>keep. bindE (filterE p xs) (\<lambda>r. Inr (if keep then x # r else r)))"

text \<open>\<^verbatim>\<open>strings.join('\n')\<close>\<close>

fun join_nl :: "string list \<Rightarrow> string" where
  "join_nl [] = []"
| "join_nl [s] = s"
| "join_nl (s # t # ss) = s @ [CHR 0x0A] @ join_nl (t # ss)"

text \<open>
  The filter callback \<^verbatim>\<open>c => c.type === 'text' && typeof c.text === 'string'\<close>; reading
  \<^verbatim>\<open>c.type\<close> throws when the block is \<^verbatim>\<open>null\<close> or \<^verbatim>\<open>undefined\<close>.
\<close>

definition is_text_block :: "jsval \<Rightarrow> js_error + bool" where
  "is_text_block c =
     bindE (js_get c ''type'') (\<lambda>ty. Inr (ty = JStr ''text'' \<and> is_string (js_prop c ''text'')))"


text \<open>The string carried by \<^verbatim>\<open>c.text\<close>; the blocks that pass the filter carry one.\<close>

fun text_of :: "jsval \<Rightarrow> string" where
  "text_of c = (case js_prop c ''text'' of JStr s \<Rightarrow> s | _ \<Rightarrow> [])"

text \<open>
  \<^verbatim>\<open>
  let textContent = '';
  if (Array.isArray(msg.content)) {
    textContent = msg.content
      .filter(c => c.type === 'text' && typeof c.text === 'string')
      .map(c => c.text)
      .join('\n');
  } else if (typeof msg.content === 'string') {
    textContent = msg.content;
  }
  \<close>
\<close>

fun textContent :: "jsval \<Rightarrow> js_error + string" where
  "textContent (JArr cs) = bindE (filterE is_text_block cs) (\<lambda>bs. Inr (join_nl (map text_of bs)))"
| "textContent (JStr s) = Inr s"
| "textContent v = Inr []"

text \<open>The fragment of one entry of \<^verbatim>\<open>msg.tool_calls\<close>.\<close>

definition functionCall_part :: "jsval \<Rightarrow> js_error + jsval" where
  "functionCall_part tool_call =
     bindE (js_get tool_call ''function'') (\<lambda>f.
     bindE (js_get f ''name'') (\<lambda>n.
     bindE (js_get f ''arguments'') (\<lambda>a.
       Inr (JObj [(''functionCall'', JObj [(''name'', n), (''args'', a)])]))))"

definition text_turn :: "string \<Rightarrow> string \<Rightarrow> jsval" where
  "text_turn role t = JObj [(''role'', JStr role), (''parts'', JArr [JObj [(''text'', JStr t)]])]"

definition function_turn :: "jsval \<Rightarrow> jsval \<Rightarrow> jsval" where
  "function_turn name response =
     JObj [(''role'', JStr ''function''),
           (''parts'', JArr [JObj [(''functionResponse'',
                                    JObj [(''name'', name), (''response'', response)])]])]"

text \<open>
  The callback of \<^verbatim>\<open>messages.map\<close> in \<^verbatim>\<open>formatHistoryForGemini\<close>, one branch per
  \<^verbatim>\<open>if\<close> of the source. The first argument holds the operations of the language. In
  \<^verbatim>\<open>msg.tool_calls && msg.tool_calls.length > 0\<close> the comparison is evaluated only for a
  truthy \<^verbatim>\<open>tool_calls\<close>; a truthy \<^verbatim>\<open>tool_calls\<close> with a positive \<^verbatim>\<open>length\<close> that is not
  an array has no \<^verbatim>\<open>map\<close> method, and the call throws.
\<close>

definition format_message :: "builtins \<Rightarrow> jsval \<Rightarrow> js_error + jsval" where
  "format_message B msg =
     bindE (js_get msg ''role'') (\<lambda>role.
       if role = JStr ''assistant'' then
         (let tool_calls = js_prop msg ''tool_calls'' in
          bindE (if truthy tool_calls then js_gt0 B (js_prop tool_calls ''length'') else Inr False)
            (\<lambda>has_calls.
          if has_calls then
            (case tool_calls of
               JArr calls \<Rightarrow>
                 bindE (mapE functionCall_part calls) (\<lambda>parts.
                   Inr (JObj [(''role'', JStr ''model''), (''parts'', JArr parts)]))
             | _ \<Rightarrow> Inl (TypeError ''msg.tool_calls.map is not a function''))
          else bindE (textContent (js_prop msg ''content'')) (\<lambda>t. Inr (text_turn ''model'' t))))
       else if role = JStr ''user'' then
         (let content = js_prop msg ''content'' in
          if is_array content \<and> js_get_opt (index0 content) ''type'' = JStr ''tool_result'' then
            (let toolResult = index0 content;
                 name = js_prop toolResult ''tool_use_id'' in
             bindE (js_index0 (js_prop toolResult ''content'')) (\<lambda>c0.
             bindE (js_get c0 ''text'') (\<lambda>t.
             bindE (JSON_parse B t) (\<lambda>response.
               Inr (function_turn name response)))))
          else bindE (textContent content) (\<lambda>t. Inr (text_turn ''user'' t)))
       else if role = JStr ''tool'' then
         (let content = js_prop msg ''content'' in
          bindE (if is_string content then JSON_parse B content else Inr content) (\<lambda>response.
            Inr (function_turn (js_prop msg ''name'') response)))
       else Inr JNull)"

text \<open>\<^verbatim>\<open>messages.map(msg => ...).filter(Boolean)\<close>\<close>

definition formatHistoryForGemini :: "builtins \<Rightarrow> jsval list \<Rightarrow> js_error + jsval list" where
  "formatHistoryForGemini B messages =
     bindE (mapE (format_message B) messages) (\<lambda>r. Inr (filter truthy r))"

text \<open>The roles the translator knows: \<^verbatim>\<open>user\<close>, \<^verbatim>\<open>assistant\<close> and \<^verbatim>\<open>tool\<close>.\<close>

definition known_role :: "jsval \<Rightarrow> bool" where
  "known_role msg = (js_prop msg ''role'' \<in> {JStr ''user'', JStr ''assistant'', JStr ''tool''})"

text \<open>The filter callback on a block that is neither \<^verbatim>\<open>null\<close> nor \<^verbatim>\<open>undefined\<close>.\<close>

definition text_block :: "jsval \<Rightarrow> bool" where
  "text_block c = (js_prop c ''type'' = JStr ''text'' \<and> is_string (js_prop c ''text''))"

section \<open>Tool schema normalisation\<close>

text \<open>
  The two tests of the loop body of \<^verbatim>\<open>cleanParameters\<close> for the key \<^verbatim>\<open>key\<close> of
  \<^verbatim>\<open>params\<close>: the \<^verbatim>\<open>continue\<close> for a free-form string format, and the guard
  \<^verbatim>\<open>key !== 'additional_properties'\<close>. The key is copied when neither applies.
\<close>

definition skips_format :: "jsval \<Rightarrow> string \<Rightarrow> bool" where
  "skips_format params key =
     (key = ''format'' \<and> js_prop params ''type'' = JStr ''string''
      \<and> js_prop params key \<notin> {JStr ''enum'', JStr ''date-time''})"

definition copies_key :: "jsval \<Rightarrow> string \<Rightarrow> bool" where
  "copies_key params key = (\<not> skips_format params key \<and> key \<noteq> ''additional_properties'')"

text \<open>
  \<^verbatim>\<open>
  function cleanParameters(params) {
    if (typeof params !== 'object' || params === null) return params;
    const cleanedParams = Array.isArray(params) ? [] : {};
    for (const key in params) {
      if (Object.prototype.hasOwnProperty.call(params, key)) {
        if (key === 'format' && params.type === 'string'
            && !['enum', 'date-time'].includes(params[key])) continue;
        if (key !== 'additional_properties') {
          cleanedParams[key] = cleanParameters(params[key]);
        }
      }
    }
    return cleanedParams;
  }
  \<close>
  The loop visits every own key once, in enumeration order, and the copy receives the kept
  keys in that order. The keys of an array are its indices, which are neither
  \<^verbatim>\<open>format\<close> nor \<^verbatim>\<open>additional_properties\<close>, so every element is copied.

  The assignment \<^verbatim>\<open>cleanedParams[key] = ...\<close> creates an own property of the copy for
  every key but one: for the key \<^verbatim>\<open>__proto__\<close> (an own key of an object that
  \<^verbatim>\<open>JSON.parse\<close> built from a text with that key) it runs the setter inherited from
  \<^verbatim>\<open>Object.prototype\<close>, which replaces the prototype of the copy, or does nothing for a
  primitive value, and creates no property. A value of the model has own properties only,
  so the copy simply does not get that key; nothing the adapter does afterwards reads an
  inherited property of a copy.
\<close>

definition creates_own_property :: "string \<Rightarrow> bool" where
  "creates_own_property key = (key \<noteq> ''__proto__'')"

definition kept_key :: "jsval \<Rightarrow> string \<Rightarrow> bool" where
  "kept_key params key = (copies_key params key \<and> creates_own_property key)"

fun cleanParameters :: "jsval \<Rightarrow> jsval" where
  "cleanParameters (JArr xs) = JArr (map cleanParameters xs)"
| "cleanParameters (JObj kvs) =
     JObj (map (\<lambda>(key, v). (key, cleanParameters v))
            (filter (\<lambda>(key, v). kept_key (JObj kvs) key) kvs))"
| "cleanParameters v = v"

text \<open>Decimal notation of an array index, the property name it has in a spread copy.\<close>

function index_key :: "nat \<Rightarrow> string" where
  "index_key n =
     (if n < 10 then [char_of (48 + n)] else index_key (n div 10) @ [char_of (48 + n mod 10)])"
  by pat_completeness auto
termination
  by (relation "measure id") auto

text \<open>
  The own enumerable properties that \<^verbatim>\<open>{ ...tool }\<close> copies. The spread defines each of
  them on the new object, the key \<^verbatim>\<open>__proto__\<close> included (no setter runs).
\<close>

fun own_props :: "jsval \<Rightarrow> (string \<times> jsval) list" where
  "own_props (JObj kvs) = kvs"
| "own_props (JArr xs) = zip (map index_key [0 ..< length xs]) xs"
| "own_props (JStr s) = zip (map index_key [0 ..< length s]) (map (\<lambda>c. JStr [c]) s)"
| "own_props v = []"

text \<open>
  \<^verbatim>\<open>obj[key] = v\<close> on an object, for a key other than \<^verbatim>\<open>__proto__\<close> (the adapter uses it
  for \<^verbatim>\<open>parameters\<close>): in place for an existing key, appended otherwise.
\<close>

fun set_prop :: "(string \<times> jsval) list \<Rightarrow> string \<Rightarrow> jsval \<Rightarrow> (string \<times> jsval) list" where
  "set_prop [] key v = [(key, v)]"
| "set_prop ((k, w) # kvs) key v = (if k = key then (k, v) # kvs else (k, w) # set_prop kvs key v)"

text \<open>\<^verbatim>\<open>delete obj[key]\<close>\<close>

definition delete_prop :: "(string \<times> jsval) list \<Rightarrow> string \<Rightarrow> (string \<times> jsval) list" where
  "delete_prop kvs key = filter (\<lambda>(k, v). k \<noteq> key) kvs"

text \<open>
  \<^verbatim>\<open>
  function transformToolsForGemini(tools) {
    return tools.map(tool => {
      const newTool = { ...tool };
      if (newTool.input_schema) {
        newTool.parameters = cleanParameters(newTool.input_schema);
        delete newTool.input_schema;
      }
      return newTool;
    });
  }
  \<close>
\<close>

definition transform_tool :: "jsval \<Rightarrow> jsval" where
  "transform_tool tool =
     (let newTool = own_props tool;
          input_schema = js_prop (JObj newTool) ''input_schema'' in
      if truthy input_schema
      then JObj (delete_prop (set_prop newTool ''parameters'' (cleanParameters input_schema))
                   ''input_schema'')
      else JObj newTool)"

definition transformToolsForGemini :: "jsval list \<Rightarrow> jsval list" where
  "transformToolsForGemini tools = map transform_tool tools"

text \<open>
  What the cleaning is to achieve, as predicates on a schema value: \<open>has_key k v\<close> says that
  the key \<open>k\<close> occurs in an object at some nesting level of \<open>v\<close>; \<open>formats_accepted v\<close>
  says that at every nesting level an object of type \<^verbatim>\<open>string\<close> with a \<^verbatim>\<open>format\<close> key has
  one of the two accepted formats.
\<close>

fun has_key :: "string \<Rightarrow> jsval \<Rightarrow> bool" where
  "has_key k (JArr xs) = (\<exists>x \<in> set xs. has_key k x)"
| "has_key k (JObj kvs) = (k \<in> fst ` set kvs \<or> (\<exists>p \<in> set kvs. has_key k (snd p)))"
| "has_key k v = False"

fun formats_accepted :: "jsval \<Rightarrow> bool" where
  "formats_accepted (JArr xs) = (\<forall>x \<in> set xs. formats_accepted x)"
| "formats_accepted (JObj kvs) =
     ((js_prop (JObj kvs) ''type'' = JStr ''string'' \<and> ''format'' \<in> fst ` set kvs
         \<longrightarrow> js_prop (JObj kvs) ''format'' \<in> {JStr ''enum'', JStr ''date-time''})
      \<and> (\<forall>p \<in> set kvs. formats_accepted (snd p)))"
| "formats_accepted v = True"

definition is_object :: "jsval \<Rightarrow> bool" where
  "is_object v = (case v of JObj kvs \<Rightarrow> True | _ \<Rightarrow> False)"

section \<open>The normaliser on an explicit store\<close>

text \<open>
  JavaScript objects and arrays are mutable and shared by reference: \<^verbatim>\<open>{ ...tool }\<close> copies
  the properties of a declaration but shares the schema object, \<^verbatim>\<open>cleanedParams[key] = ...\<close>
  and \<^verbatim>\<open>delete newTool.input_schema\<close> write into objects. Whether the caller's declarations
  are touched is visible only with the references made explicit. A store is the list of
  the allocated arrays and objects; an address is a position in it, allocation appends.
  Values are the primitives and references into the store.
\<close>

type_synonym addr = nat

datatype hval =
    HUndefined
  | HNull
  | HBool bool
  | HNum rat
  | HStr string
  | HRef addr

datatype hobj =
    HArray "hval list"
  | HObject "(string \<times> hval) list"

type_synonym store = "hobj list"

text \<open>
  The keys a \<^verbatim>\<open>for ... in\<close> loop yields: the names of an object's properties, the indices
  of an array. An index is never equal to \<^verbatim>\<open>'format'\<close> or \<^verbatim>\<open>'additional_properties'\<close>.
\<close>

datatype pkey = Name string | Index nat

fun htruthy :: "hval \<Rightarrow> bool" where
  "htruthy HUndefined = False"
| "htruthy HNull = False"
| "htruthy (HBool b) = b"
| "htruthy (HNum n) = (n \<noteq> 0)"
| "htruthy (HStr s) = (s \<noteq> [])"
| "htruthy (HRef a) = True"

fun own_keys :: "hobj \<Rightarrow> pkey list" where
  "own_keys (HObject kvs) = map (\<lambda>(k, v). Name k) kvs"
| "own_keys (HArray xs) = map Index [0 ..< length xs]"

text \<open>\<^verbatim>\<open>obj[key]\<close> read from the store, at the moment of the read.\<close>

fun obj_read :: "hobj \<Rightarrow> pkey \<Rightarrow> hval" where
  "obj_read (HObject kvs) (Name k) = (case map_of kvs k of Some v \<Rightarrow> v | None \<Rightarrow> HUndefined)"
| "obj_read (HObject kvs) (Index i) = (case map_of kvs (index_key i) of Some v \<Rightarrow> v | None \<Rightarrow> HUndefined)"
| "obj_read (HArray xs) (Index i) = (if i < length xs then xs ! i else HUndefined)"
| "obj_read (HArray xs) (Name k) = (if k = ''length'' then HNum (of_nat (length xs)) else HUndefined)"

definition hread :: "store \<Rightarrow> addr \<Rightarrow> pkey \<Rightarrow> hval" where
  "hread h a key = (if a < length h then obj_read (h ! a) key else HUndefined)"

text \<open>
  \<^verbatim>\<open>obj[key] = v\<close>: the object at that address is replaced by the updated one; every
  reference to it sees the update. On an object the key \<^verbatim>\<open>__proto__\<close> runs the inherited
  setter and creates no property (the prototype of an object is not part of the store). The
  adapter writes arrays by index only; writing an element past the end extends the array.
\<close>

fun set_hprop :: "(string \<times> hval) list \<Rightarrow> string \<Rightarrow> hval \<Rightarrow> (string \<times> hval) list" where
  "set_hprop [] key v = [(key, v)]"
| "set_hprop ((k, w) # kvs) key v = (if k = key then (k, v) # kvs else (k, w) # set_hprop kvs key v)"

fun obj_write :: "hobj \<Rightarrow> pkey \<Rightarrow> hval \<Rightarrow> hobj" where
  "obj_write (HObject kvs) (Name k) v =
     (if k = ''__proto__'' then HObject kvs else HObject (set_hprop kvs k v))"
| "obj_write (HObject kvs) (Index i) v = HObject (set_hprop kvs (index_key i) v)"
| "obj_write (HArray xs) (Index i) v =
     (if i < length xs then HArray (xs[i := v])
      else HArray (xs @ replicate (i - length xs) HUndefined @ [v]))"
| "obj_write (HArray xs) (Name k) v = HArray xs"

definition hwrite :: "store \<Rightarrow> addr \<Rightarrow> pkey \<Rightarrow> hval \<Rightarrow> store" where
  "hwrite h a key v = h[a := obj_write (h ! a) key v]"

text \<open>\<^verbatim>\<open>delete obj[key]\<close>\<close>

fun obj_delete :: "hobj \<Rightarrow> string \<Rightarrow> hobj" where
  "obj_delete (HObject kvs) k = HObject (filter (\<lambda>(k', v). k' \<noteq> k) kvs)"
| "obj_delete (HArray xs) k = HArray xs"

definition hdelete :: "store \<Rightarrow> addr \<Rightarrow> string \<Rightarrow> store" where
  "hdelete h a k = h[a := obj_delete (h ! a) k]"

text \<open>
  \<^verbatim>\<open>cleanParameters\<close> on the store. \<open>cleanParameters_h n h v\<close> returns the store after the
  call and the value returned. A primitive is returned as it is. For a reference, the empty
  copy is allocated first, then the loop runs over the keys of \<^verbatim>\<open>params\<close>, reading
  \<^verbatim>\<open>params.type\<close> and \<^verbatim>\<open>params[key]\<close> from the current store and writing into the copy.
  The recursion follows references, which may form a cycle in a store, so it is bounded by
  the depth \<open>n\<close>: the result is \<open>None\<close> when the nesting is deeper than \<open>n\<close> (the JavaScript
  recursion does not return on a cyclic schema) and for a reference outside the store, which
  no JavaScript state contains.
\<close>

definition skips_format_h :: "store \<Rightarrow> addr \<Rightarrow> pkey \<Rightarrow> bool" where
  "skips_format_h h params key =
     (key = Name ''format'' \<and> hread h params (Name ''type'') = HStr ''string''
      \<and> hread h params key \<notin> {HStr ''enum'', HStr ''date-time''})"

fun cleanParameters_h :: "nat \<Rightarrow> store \<Rightarrow> hval \<Rightarrow> (store \<times> hval) option"
  and clean_loop :: "nat \<Rightarrow> store \<Rightarrow> addr \<Rightarrow> addr \<Rightarrow> pkey list \<Rightarrow> store option" where
  "cleanParameters_h n h (HRef params) =
     (case n of
        0 \<Rightarrow> None
      | Suc m \<Rightarrow>
          if params < length h then
            (let cleanedParams = length h;
                 h1 = h @ [case h ! params of HArray xs \<Rightarrow> HArray [] | HObject kvs \<Rightarrow> HObject []] in
             case clean_loop m h1 params cleanedParams (own_keys (h1 ! params)) of
               None \<Rightarrow> None
             | Some h2 \<Rightarrow> Some (h2, HRef cleanedParams))
          else None)"
| "cleanParameters_h n h HUndefined = Some (h, HUndefined)"
| "cleanParameters_h n h HNull = Some (h, HNull)"
| "cleanParameters_h n h (HBool b) = Some (h, HBool b)"
| "cleanParameters_h n h (HNum x) = Some (h, HNum x)"
| "cleanParameters_h n h (HStr s) = Some (h, HStr s)"
| "clean_loop n h params cleanedParams [] = Some h"
| "clean_loop n h params cleanedParams (key # keys) =
     (if skips_format_h h params key then clean_loop n h params cleanedParams keys
      else if key \<noteq> Name ''additional_properties'' then
        (case cleanParameters_h n h (hread h params key) of
           None \<Rightarrow> None
         | Some (h', v) \<Rightarrow> clean_loop n (hwrite h' cleanedParams key v) params cleanedParams keys)
      else clean_loop n h params cleanedParams keys)"

text \<open>The properties that \<^verbatim>\<open>{ ...tool }\<close> copies, read from the store.\<close>

fun own_props_h :: "store \<Rightarrow> hval \<Rightarrow> (string \<times> hval) list" where
  "own_props_h h (HRef t) =
     (if t < length h then
        (case h ! t of
           HObject kvs \<Rightarrow> kvs
         | HArray xs \<Rightarrow> zip (map index_key [0 ..< length xs]) xs)
      else [])"
| "own_props_h h (HStr s) = zip (map index_key [0 ..< length s]) (map (\<lambda>c. HStr [c]) s)"
| "own_props_h h v = []"

text \<open>
  The callback of \<^verbatim>\<open>tools.map\<close>: the copy \<^verbatim>\<open>newTool\<close> is a new object holding the same
  property values as the declaration, references included.
\<close>

definition transform_tool_h :: "nat \<Rightarrow> store \<Rightarrow> hval \<Rightarrow> (store \<times> hval) option" where
  "transform_tool_h n h tool =
     (let newTool = length h;
          h1 = h @ [HObject (own_props_h h tool)];
          input_schema = hread h1 newTool (Name ''input_schema'') in
      if htruthy input_schema then
        (case cleanParameters_h n h1 input_schema of
           None \<Rightarrow> None
         | Some (h2, cleaned) \<Rightarrow>
             Some (hdelete (hwrite h2 newTool (Name ''parameters'') cleaned) newTool ''input_schema'',
                   HRef newTool))
      else Some (h1, HRef newTool))"

text \<open>
  \<^verbatim>\<open>tools.map(...)\<close>: a new array receives the result of the callback for each index of
  \<^verbatim>\<open>tools\<close>. \<open>transformToolsForGemini_h n h tools\<close> is defined for the address of an array.
\<close>

fun transform_loop :: "nat \<Rightarrow> store \<Rightarrow> addr \<Rightarrow> addr \<Rightarrow> nat list \<Rightarrow> store option" where
  "transform_loop n h tools result [] = Some h"
| "transform_loop n h tools result (k # ks) =
     (case transform_tool_h n h (hread h tools (Index k)) of
        None \<Rightarrow> None
      | Some (h', newTool) \<Rightarrow>
          transform_loop n (hwrite h' result (Index k) newTool) tools result ks)"

definition transformToolsForGemini_h :: "nat \<Rightarrow> store \<Rightarrow> addr \<Rightarrow> (store \<times> addr) option" where
  "transformToolsForGemini_h n h tools =
     (if tools < length h then
        (case h ! tools of
           HArray ts \<Rightarrow>
             (let result = length h; h1 = h @ [HArray []] in
              case transform_loop n h1 tools result [0 ..< length ts] of
                None \<Rightarrow> None
              | Some h2 \<Rightarrow> Some (h2, result))
         | HObject kvs \<Rightarrow> None)
      else None)"

text \<open>
  The JSON value that a store value denotes, read through references down to depth \<open>n\<close>.
\<close>

fun heap_value :: "nat \<Rightarrow> store \<Rightarrow> hval \<Rightarrow> jsval option" where
  "heap_value n h (HRef a) =
     (case n of
        0 \<Rightarrow> None
      | Suc m \<Rightarrow>
          if a < length h then
            (case h ! a of
               HArray xs \<Rightarrow> map_option JArr (those (map (heap_value m h) xs))
             | HObject kvs \<Rightarrow>
                 map_option JObj
                   (those (map (\<lambda>(k, v). map_option (Pair k) (heap_value m h v)) kvs)))
          else None)"
| "heap_value n h HUndefined = Some JUndefined"
| "heap_value n h HNull = Some JNull"
| "heap_value n h (HBool b) = Some (JBool b)"
| "heap_value n h (HNum x) = Some (JNum x)"
| "heap_value n h (HStr s) = Some (JStr s)"

text \<open>Every array and object of the store \<open>h\<close> is still there, with the same content, in \<open>h'\<close>.\<close>

definition unchanged :: "store \<Rightarrow> store \<Rightarrow> bool" where
  "unchanged h h' = (length h \<le> length h' \<and> (\<forall>a < length h. h' ! a = h ! a))"

text \<open>
  A JSON value as a real object graph gives it: every object has each of its keys once, at
  every nesting level.
\<close>

fun distinct_keys :: "jsval \<Rightarrow> bool" where
  "distinct_keys (JArr xs) = (\<forall>x \<in> set xs. distinct_keys x)"
| "distinct_keys (JObj kvs) = (distinct (map fst kvs) \<and> (\<forall>p \<in> set kvs. distinct_keys (snd p)))"
| "distinct_keys v = True"

text \<open>
  The store \<open>h'\<close> has every array and object that \<open>h\<close> has at the addresses from \<open>lo\<close> on,
  with the same content.
\<close>

definition agrees :: "nat \<Rightarrow> store \<Rightarrow> store \<Rightarrow> bool" where
  "agrees lo h h' = (length h \<le> length h' \<and> (\<forall>a. lo \<le> a \<and> a < length h \<longrightarrow> h' ! a = h ! a))"

section \<open>Streaming response emulation\<close>

text \<open>The values of \<^verbatim>\<open>config.server.js\<close> that the adapter reads.\<close>

definition defaultModel :: string where
  "defaultModel = ''gemini-2.5-pro''"

definition defaultPromptType :: string where
  "defaultPromptType = ''standardAssistant''"

text \<open>
  The caller's callbacks. Each is optional; a supplied callback returns or throws
  (\<^verbatim>\<open>onToolUse\<close> is awaited, so its rejection is a throw as well).
\<close>

record handlers =
  onText :: "(string \<Rightarrow> js_error option) option"
  onToolUse :: "(jsval \<Rightarrow> js_error option) option"
  onMessage :: "(jsval \<Rightarrow> js_error option) option"

text \<open>The model configuration and the contents handed to the provider.\<close>

record request =
  req_model :: string
  req_systemInstruction :: jsval
  req_tools :: jsval
  req_contents :: "jsval list"

text \<open>
  What a successful \<^verbatim>\<open>generateContentStream\<close> resolves to: the texts \<^verbatim>\<open>chunk.text()\<close>
  of the chunks in arrival order, the error that ends the stream if it does not end normally,
  and the outcome of awaiting \<^verbatim>\<open>result.response\<close>.
\<close>

record generation =
  stream :: "string list"
  stream_failure :: "js_error option"
  response :: "js_error + jsval"

text \<open>What the outside observes of a run: the provider call and the callback invocations.\<close>

datatype event =
    is_Generate: Generate request
  | is_OnText: OnText string
  | is_OnToolUse: OnToolUse jsval
  | is_OnMessage: OnMessage jsval

text \<open>\<^verbatim>\<open>s.includes(t)\<close> on strings.\<close>

fun includes_str :: "string \<Rightarrow> string \<Rightarrow> bool" where
  "includes_str [] t = (t = [])"
| "includes_str (c # s) t = (take (length t) (c # s) = t \<or> includes_str s t)"

definition readable_signature :: string where
  "readable_signature = ''First parameter has member 'readable' that is not a ReadableStream''"

definition unavailable_message :: string where
  "unavailable_message = ''Streaming is temporarily unavailable due to a ReadableStream compatibility issue. Please try again or contact support if the issue persists.''"

text \<open>
  \<^verbatim>\<open>error.message\<close> for the value caught: reading a property of \<^verbatim>\<open>null\<close> or
  \<^verbatim>\<open>undefined\<close> throws.
\<close>

fun error_message :: "js_error \<Rightarrow> js_error + jsval" where
  "error_message (JsError name message) = Inr (JStr message)"
| "error_message (Thrown v) = js_get v ''message''"

text \<open>
  The \<^verbatim>\<open>catch\<close> block around \<^verbatim>\<open>generateContentStream\<close>: the error that leaves it.
  \<^verbatim>\<open>
  if (error.message && error.message.includes("First parameter has member ...")) {
    console.error(...);
    throw new Error("Streaming is temporarily unavailable ...");
  }
  throw error;
  \<close>
  A falsy message skips the test. \<^verbatim>\<open>includes\<close> is the substring test on a string and
  the membership test on an array; a truthy message of any other type has no such method,
  and the call throws a TypeError of its own.
\<close>

definition rethrow :: "js_error \<Rightarrow> js_error" where
  "rethrow error =
     (case error_message error of
        Inl e \<Rightarrow> e
      | Inr message \<Rightarrow>
          if truthy message then
            (case message of
               JStr s \<Rightarrow>
                 if includes_str s readable_signature then Error unavailable_message else error
             | JArr xs \<Rightarrow>
                 if JStr readable_signature \<in> set xs then Error unavailable_message else error
             | _ \<Rightarrow> TypeError ''error.message.includes is not a function'')
          else error)"

text \<open>
  Modelled from the spec: \<^verbatim>\<open>prompts/prompts.json\<close> is not among the sources; the table
  \<^verbatim>\<open>systemPrompts.systemPrompts\<close> of prompt entries is the parameter \<open>prompts\<close>.
  \<^verbatim>\<open>
  systemPrompts.systemPrompts[promptType]?.content ||
    systemPrompts.systemPrompts[AppConfig.api.defaultPromptType].content
  \<close>
\<close>

definition getSystemPrompt :: "(string \<times> jsval) list \<Rightarrow> string \<Rightarrow> js_error + jsval" where
  "getSystemPrompt prompts promptType =
     (let content = js_get_opt (js_prop (JObj prompts) promptType) ''content'' in
      if truthy content then Inr content
      else js_get (js_prop (JObj prompts) defaultPromptType) ''content'')"

text \<open>
  \<^verbatim>\<open>tools && tools.length > 0 ? [{ functionDeclarations: transformToolsForGemini(tools) }] : undefined\<close>
\<close>

definition tools_config :: "builtins \<Rightarrow> jsval \<Rightarrow> js_error + jsval" where
  "tools_config B tools =
     bindE (if truthy tools then js_gt0 B (js_prop tools ''length'') else Inr False) (\<lambda>has_tools.
       if has_tools then
         (case tools of
            JArr ts \<Rightarrow> Inr (JArr [JObj [(''functionDeclarations'', JArr (transformToolsForGemini ts))]])
          | _ \<Rightarrow> Inl (TypeError ''tools.map is not a function''))
       else Inr JUndefined)"

text \<open>
  The loop over \<^verbatim>\<open>result.stream\<close>, with the accumulator \<^verbatim>\<open>fullResponseText\<close>:
  \<^verbatim>\<open>
  for await (const chunk of result.stream) {
    const chunkText = chunk.text();
    if (chunkText) {
      if (streamHandlers.onText) streamHandlers.onText(chunkText);
      fullResponseText += chunkText;
    }
  }
  \<close>
  It returns the callback invocations made and the accumulated text, or the error of the
  callback that threw.
\<close>

fun consume_stream :: "handlers \<Rightarrow> string list \<Rightarrow> string \<Rightarrow> event list \<times> (js_error + string)" where
  "consume_stream h [] fullResponseText = ([], Inr fullResponseText)"
| "consume_stream h (chunkText # rest) fullResponseText =
     (if chunkText \<noteq> [] then
        (case onText h of
           None \<Rightarrow> consume_stream h rest (fullResponseText @ chunkText)
         | Some f \<Rightarrow>
             (case f chunkText of
                Some e \<Rightarrow> ([OnText chunkText], Inl e)
              | None \<Rightarrow>
                  (case consume_stream h rest (fullResponseText @ chunkText) of
                     (evs, r) \<Rightarrow> (OnText chunkText # evs, r))))
      else consume_stream h rest fullResponseText)"

text \<open>\<^verbatim>\<open>aggregatedResponse.candidates?.[0]\<close> and the check that follows it.\<close>

definition response_candidate :: "jsval \<Rightarrow> js_error + jsval" where
  "response_candidate aggregatedResponse =
     bindE (js_get aggregatedResponse ''candidates'') (\<lambda>candidates.
       let responseCandidate = (if nullish candidates then JUndefined else index0 candidates) in
       if \<not> truthy responseCandidate then Inl (Error ''No response candidate found from Gemini.'')
       else Inr responseCandidate)"

text \<open>
  \<^verbatim>\<open>
  responseCandidate.content?.parts
    .filter(part => !!part.functionCall)
    .map(part => part.functionCall) || []
  \<close>
  An absent \<^verbatim>\<open>content\<close> ends the optional chain with \<^verbatim>\<open>undefined\<close>; a \<^verbatim>\<open>parts\<close>
  that is not an array has no \<^verbatim>\<open>filter\<close>.
\<close>

definition geminiToolCalls :: "jsval \<Rightarrow> js_error + jsval list" where
  "geminiToolCalls responseCandidate =
     (let content = js_prop responseCandidate ''content'' in
      if nullish content then Inr []
      else (case js_prop content ''parts'' of
              JArr parts \<Rightarrow>
                bindE (filterE (\<lambda>part. bindE (js_get part ''functionCall'') (\<lambda>fc. Inr (truthy fc))) parts)
                  (\<lambda>kept. Inr (map (\<lambda>part. js_prop part ''functionCall'') kept))
            | _ \<Rightarrow> Inl (TypeError ''responseCandidate.content.parts.filter is not a function'')))"

text \<open>
  The reverse mapping of one provider function call:
  \<^verbatim>\<open>{ type: 'tool_use', id: geminiCall.name, name: geminiCall.name, input: geminiCall.args }\<close>
\<close>

definition tool_use_block :: "jsval \<Rightarrow> jsval" where
  "tool_use_block geminiCall =
     JObj [(''type'', JStr ''tool_use''), (''id'', js_prop geminiCall ''name''),
           (''name'', js_prop geminiCall ''name''), (''input'', js_prop geminiCall ''args'')]"

text \<open>
  \<^verbatim>\<open>
  for (const geminiCall of geminiToolCalls) {
    const claudeToolUseObject = { type: 'tool_use', ... };
    await streamHandlers.onToolUse(claudeToolUseObject);
  }
  \<close>
\<close>

fun dispatch_tool_uses :: "(jsval \<Rightarrow> js_error option) \<Rightarrow> jsval list \<Rightarrow> event list \<times> js_error option" where
  "dispatch_tool_uses f [] = ([], None)"
| "dispatch_tool_uses f (geminiCall # rest) =
     (case f (tool_use_block geminiCall) of
        Some e \<Rightarrow> ([OnToolUse (tool_use_block geminiCall)], Some e)
      | None \<Rightarrow>
          (case dispatch_tool_uses f rest of
             (evs, r) \<Rightarrow> (OnToolUse (tool_use_block geminiCall) # evs, r)))"

text \<open>The final message of \<^verbatim>\<open>streamConversation\<close>.\<close>

definition finalMessage :: "jsval list \<Rightarrow> string \<Rightarrow> jsval \<Rightarrow> jsval" where
  "finalMessage toolCalls fullResponseText responseCandidate =
     JObj [(''role'', JStr ''assistant''),
           (''content'',
              JArr (if toolCalls \<noteq> [] then map tool_use_block toolCalls
                    else [JObj [(''type'', JStr ''text''), (''text'', JStr fullResponseText)]])),
           (''model'', JStr defaultModel),
           (''stop_reason'', JStr (mapFinishReason (js_prop responseCandidate ''finishReason'')))]"

text \<open>
  The part of \<^verbatim>\<open>streamConversation\<close> after the stream is exhausted: the candidate, the
  tool calls and their callbacks, the final message and its callback.
\<close>

definition finish_conversation :: "handlers \<Rightarrow> string \<Rightarrow> jsval \<Rightarrow> event list \<times> (js_error + jsval)" where
  "finish_conversation h fullResponseText aggregatedResponse =
     (case response_candidate aggregatedResponse of
        Inl e \<Rightarrow> ([], Inl e)
      | Inr responseCandidate \<Rightarrow>
     (case geminiToolCalls responseCandidate of
        Inl e \<Rightarrow> ([], Inl e)
      | Inr toolCalls \<Rightarrow>
     (case (case onToolUse h of
              Some f \<Rightarrow> if toolCalls \<noteq> [] then dispatch_tool_uses f toolCalls else ([], None)
            | None \<Rightarrow> ([], None)) of
        (evs, Some e) \<Rightarrow> (evs, Inl e)
      | (evs, None) \<Rightarrow>
          (let msg = finalMessage toolCalls fullResponseText responseCandidate in
           case onMessage h of
             None \<Rightarrow> (evs, Inr msg)
           | Some f \<Rightarrow>
               (case f msg of
                  Some e \<Rightarrow> (evs @ [OnMessage msg], Inl e)
                | None \<Rightarrow> (evs @ [OnMessage msg], Inr msg))))))"

text \<open>
  \<^verbatim>\<open>streamConversation({ messages, promptType, tools }, streamHandlers)\<close>. The first
  argument holds the operations of the language; the provider call
  \<^verbatim>\<open>model.generateContentStream\<close> is the parameter \<open>generateContentStream\<close>; an omitted
  \<^verbatim>\<open>promptType\<close> takes the default. The result is the trace of what the run did and the
  message it returns or the error it throws. The \<^verbatim>\<open>console.error\<close> line is not traced.
\<close>

definition streamConversation ::
  "builtins \<Rightarrow> (string \<times> jsval) list \<Rightarrow> (request \<Rightarrow> js_error + generation)
   \<Rightarrow> jsval list \<Rightarrow> string option \<Rightarrow> jsval \<Rightarrow> handlers \<Rightarrow> event list \<times> (js_error + jsval)" where
  "streamConversation B prompts generateContentStream messages promptType tools streamHandlers =
     (case getSystemPrompt prompts (case promptType of None \<Rightarrow> defaultPromptType | Some p \<Rightarrow> p) of
        Inl e \<Rightarrow> ([], Inl e)
      | Inr systemInstruction \<Rightarrow>
     (case tools_config B tools of
        Inl e \<Rightarrow> ([], Inl e)
      | Inr toolsConfig \<Rightarrow>
     (case formatHistoryForGemini B messages of
        Inl e \<Rightarrow> ([], Inl e)
      | Inr geminiHistory \<Rightarrow>
     (let req = \<lparr>req_model = defaultModel, req_systemInstruction = systemInstruction,
                 req_tools = toolsConfig, req_contents = geminiHistory\<rparr> in
      case generateContentStream req of
        Inl error \<Rightarrow> ([Generate req], Inl (rethrow error))
      | Inr result \<Rightarrow>
     (case consume_stream streamHandlers (stream result) [] of
        (evs, Inl e) \<Rightarrow> (Generate req # evs, Inl e)
      | (evs, Inr fullResponseText) \<Rightarrow>
     (case stream_failure result of
        Some e \<Rightarrow> (Generate req # evs, Inl e)
      | None \<Rightarrow>
     (case response result of
        Inl e \<Rightarrow> (Generate req # evs, Inl e)
      | Inr aggregatedResponse \<Rightarrow>
     (case finish_conversation streamHandlers fullResponseText aggregatedResponse of
        (evs', r) \<Rightarrow> (Generate req # evs @ evs', r)))))))))"

section \<open>Traces of complete runs\<close>

text \<open>
  The callback invocations of the three phases of a run that reaches its end, as functions
  of the provider's answer: one \<^verbatim>\<open>onText\<close> per non-empty fragment, one \<^verbatim>\<open>onToolUse\<close>
  per function call, one \<^verbatim>\<open>onMessage\<close>; an absent callback leaves no event.
\<close>

definition text_events :: "handlers \<Rightarrow> string list \<Rightarrow> event list" where
  "text_events h chunks =
     (case onText h of None \<Rightarrow> [] | Some f \<Rightarrow> map OnText (filter (\<lambda>c. c \<noteq> []) chunks))"

definition tool_events :: "handlers \<Rightarrow> jsval list \<Rightarrow> event list" where
  "tool_events h calls =
     (case onToolUse h of None \<Rightarrow> [] | Some f \<Rightarrow> map (\<lambda>c. OnToolUse (tool_use_block c)) calls)"

definition message_events :: "handlers \<Rightarrow> jsval \<Rightarrow> event list" where
  "message_events h msg = (case onMessage h of None \<Rightarrow> [] | Some f \<Rightarrow> [OnMessage msg])"

section \<open>Example data\<close>

text \<open>
  Concrete inputs for the runs evaluated below. \<open>example_parse\<close> stands for the
  operations of the language on the arguments the examples give them: its \<^verbatim>\<open>JSON.parse\<close>
  parses the one payload text the examples contain, \<^verbatim>\<open>{}\<close>, to the empty object and throws
  on every other argument; no example below applies it to one, and none compares a string,
  array or object with 0.
\<close>

definition example_parse :: builtins where
  "example_parse =
     \<lparr>JSON_parse = (\<lambda>t. if t = JStr ''{}'' then Inr (JObj [])
                          else Inl (JsError ''SyntaxError'' ''Unexpected token in JSON'')),
      coerce_gt0 = (\<lambda>v. Inr False)\<rparr>"

definition quiet_handlers :: handlers where
  "quiet_handlers =
     \<lparr>onText = Some (\<lambda>t. None), onToolUse = Some (\<lambda>b. None), onMessage = Some (\<lambda>m. None)\<rparr>"

definition example_prompts :: "(string \<times> jsval) list" where
  "example_prompts = [(''standardAssistant'', JObj [(''content'', JStr ''You are a helpful assistant.'')])]"

definition user_hi :: jsval where
  "user_hi = JObj [(''role'', JStr ''user''), (''content'', JStr ''hi'')]"

definition hello_response :: jsval where
  "hello_response =
     JObj [(''candidates'',
            JArr [JObj [(''content'', JObj [(''parts'', JArr [JObj [(''text'', JStr ''Hello!'')]])]),
                        (''finishReason'', JStr ''STOP'')]])]"

definition search_response :: jsval where
  "search_response =
     JObj [(''candidates'',
            JArr [JObj [(''content'',
                         JObj [(''parts'',
                                JArr [JObj [(''text'', JStr ''Looking'')],
                                      JObj [(''functionCall'',
                                             JObj [(''name'', JStr ''search''),
                                                   (''args'', JObj [(''q'', JStr ''tea'')])])]])]),
                        (''finishReason'', JStr ''STOP'')]])]"

definition hello_generation :: generation where
  "hello_generation = \<lparr>stream = [''Hel'', [], ''lo!''], stream_failure = None, response = Inr hello_response\<rparr>"

definition search_generation :: generation where
  "search_generation = \<lparr>stream = [''Looking''], stream_failure = None, response = Inr search_response\<rparr>"

definition hello_provider :: "request \<Rightarrow> js_error + generation" where
  "hello_provider req = Inr hello_generation"

definition search_provider :: "request \<Rightarrow> js_error + generation" where
  "search_provider req = Inr search_generation"

definition hi_request :: request where
  "hi_request =
     \<lparr>req_model = ''gemini-2.5-pro'',
      req_systemInstruction = JStr ''You are a helpful assistant.'',
      req_tools = JUndefined,
      req_contents = [JObj [(''role'', JStr ''user''),
                            (''parts'', JArr [JObj [(''text'', JStr ''hi'')]])]]\<rparr>"

definition hello_message :: jsval where
  "hello_message =
     JObj [(''role'', JStr ''assistant''),
           (''content'', JArr [JObj [(''type'', JStr ''text''), (''text'', JStr ''Hello!'')]]),
           (''model'', JStr ''gemini-2.5-pro''),
           (''stop_reason'', JStr ''end_turn'')]"

definition search_block :: jsval where
  "search_block =
     JObj [(''type'', JStr ''tool_use''), (''id'', JStr ''search''), (''name'', JStr ''search''),
           (''input'', JObj [(''q'', JStr ''tea'')])]"

definition search_message :: jsval where
  "search_message =
     JObj [(''role'', JStr ''assistant''),
           (''content'', JArr [search_block]),
           (''model'', JStr ''gemini-2.5-pro''),
           (''stop_reason'', JStr ''end_turn'')]"





definition assistant_three :: jsval where
  "assistant_three =
     JObj [(''role'', JStr ''assistant''),
           (''content'',
            JArr [JObj [(''type'', JStr ''text''), (''text'', JStr ''Hello,'')],
                  JObj [(''type'', JStr ''tool_result''), (''tool_use_id'', JStr ''search'')],
                  JObj [(''type'', JStr ''text''), (''text'', JStr ''dear'')],
                  JObj [(''type'', JStr ''image'')],
                  JObj [(''type'', JStr ''text''), (''text'', JStr ''world!'')]])]"

definition proto_schema :: jsval where
  "proto_schema =
     JObj [(''type'', JStr ''object''), (''__proto__'', JObj [(''type'', JStr ''string'')]),
           (''title'', JStr ''Query'')]"


definition text_a :: jsval where
  "text_a = JObj [(''type'', JStr ''text''), (''text'', JStr ''a'')]"

definition text_b :: jsval where
  "text_b = JObj [(''type'', JStr ''text''), (''text'', JStr ''b'')]"

definition result_block :: jsval where
  "result_block =
     JObj [(''type'', JStr ''tool_result''), (''tool_use_id'', JStr ''call_1''),
           (''content'', JArr [JObj [(''type'', JStr ''text''), (''text'', JStr ''{}'')]])]"

definition assistant_ab :: jsval where
  "assistant_ab =
     JObj [(''role'', JStr ''assistant''), (''content'', JArr [text_a, result_block, text_b])]"

definition call_record :: jsval where
  "call_record =
     JObj [(''id'', JStr ''call_1''),
           (''function'', JObj [(''name'', JStr ''search''), (''arguments'', JObj [(''q'', JStr ''tea'')])])]"

definition assistant_call :: jsval where
  "assistant_call = JObj [(''role'', JStr ''assistant''), (''tool_calls'', JArr [call_record])]"

definition user_result :: jsval where
  "user_result = JObj [(''role'', JStr ''user''), (''content'', JArr [result_block, text_a])]"

definition user_text_first :: jsval where
  "user_text_first = JObj [(''role'', JStr ''user''), (''content'', JArr [text_a, result_block])]"

definition system_turn :: jsval where
  "system_turn = JObj [(''role'', JStr ''system''), (''content'', JStr ''be brief'')]"

definition translated_call :: jsval where
  "translated_call = JObj [(''name'', JStr ''search''), (''args'', JObj [(''q'', JStr ''tea'')])]"

definition model_call_turn :: jsval where
  "model_call_turn =
     JObj [(''role'', JStr ''model''), (''parts'', JArr [JObj [(''functionCall'', translated_call)]])]"

definition named_call_record :: jsval where
  "named_call_record =
     JObj [(''id'', JStr ''search''),
           (''function'', JObj [(''name'', JStr ''search''), (''arguments'', JObj [(''q'', JStr ''tea'')])])]"

definition assistant_named_call :: jsval where
  "assistant_named_call =
     JObj [(''role'', JStr ''assistant''), (''tool_calls'', JArr [named_call_record])]"

definition named_result_block :: jsval where
  "named_result_block =
     JObj [(''type'', JStr ''tool_result''), (''tool_use_id'', JStr ''search''),
           (''content'', JArr [JObj [(''type'', JStr ''text''), (''text'', JStr ''{}'')]])]"

definition user_named_result :: jsval where
  "user_named_result = JObj [(''role'', JStr ''user''), (''content'', JArr [named_result_block])]"

definition email_schema :: jsval where
  "email_schema =
     JObj [(''type'', JStr ''string''), (''format'', JStr ''email''),
           (''additional_properties'', JObj [(''x'', JBool True)])]"

definition enum_schema :: jsval where
  "enum_schema = JObj [(''type'', JStr ''string''), (''format'', JStr ''enum'')]"

definition int_schema :: jsval where
  "int_schema = JObj [(''type'', JStr ''integer''), (''format'', JStr ''int32'')]"

definition search_schema :: jsval where
  "search_schema =
     JObj [(''type'', JStr ''object''),
           (''properties'', JObj [(''q'', email_schema), (''kind'', enum_schema), (''n'', int_schema)]),
           (''required'', JArr [JStr ''q''])]"

definition search_tool :: "(string \<times> jsval) list" where
  "search_tool =
     [(''name'', JStr ''search''), (''description'', JStr ''Search the catalog''),
      (''input_schema'', search_schema)]"

text \<open>
  A store with the declaration list of one tool: the array at address 4 holds the
  declaration at 3, whose schema at 2 has the properties object at 1 with the string schema
  at 0. \<open>example_store_after\<close> is the store after the normalisation.
\<close>

definition example_store :: store where
  "example_store =
     [HObject [(''type'', HStr ''string''), (''format'', HStr ''email''),
               (''additional_properties'', HBool False)],
      HObject [(''q'', HRef 0)],
      HObject [(''type'', HStr ''object''), (''properties'', HRef 1)],
      HObject [(''name'', HStr ''search''), (''input_schema'', HRef 2)],
      HArray [HRef 3]]"

definition example_store_after :: store where
  "example_store_after =
     example_store @
     [HArray [HRef 6],
      HObject [(''name'', HStr ''search''), (''parameters'', HRef 7)],
      HObject [(''type'', HStr ''object''), (''properties'', HRef 8)],
      HObject [(''q'', HRef 9)],
      HObject [(''type'', HStr ''string'')]]"

definition example_declaration :: jsval where
  "example_declaration =
     JObj [(''name'', JStr ''search''),
           (''input_schema'',
            JObj [(''type'', JStr ''object''),
                  (''properties'',
                   JObj [(''q'', JObj [(''type'', JStr ''string''), (''format'', JStr ''email''),
                                       (''additional_properties'', JBool False)])])])]"

section \<open>Properties\<close>

subsection \<open>Auxiliary facts\<close>



lemma consume_stream_returns:
  assumes "\<And>f c. onText h = Some f \<Longrightarrow> c \<in> set chunks \<Longrightarrow> c \<noteq> [] \<Longrightarrow> f c = None"
  shows "consume_stream h chunks acc =
           (case onText h of None \<Rightarrow> [] | Some f \<Rightarrow> map OnText (filter (\<lambda>c. c \<noteq> []) chunks),
            Inr (acc @ concat (filter (\<lambda>c. c \<noteq> []) chunks)))"
  using assms
proof (induction chunks arbitrary: acc)
  case Nil
  show ?case by (simp split: option.splits)
next
  case (Cons c cs)
  have ih: "consume_stream h cs acc' =
           (case onText h of None \<Rightarrow> [] | Some f \<Rightarrow> map OnText (filter (\<lambda>c. c \<noteq> []) cs),
            Inr (acc' @ concat (filter (\<lambda>c. c \<noteq> []) cs)))" for acc'
    using Cons.IH Cons.prems by simp
  show ?case
  proof (cases "onText h")
    case None
    then show ?thesis by (simp add: ih)
  next
    case (Some f)
    show ?thesis
    proof (cases "c = []")
      case True
      then show ?thesis using Some by (simp add: ih)
    next
      case False
      then have "f c = None" using Cons.prems Some by simp
      then show ?thesis using Some False by (simp add: ih)
    qed
  qed
qed

lemma consume_stream_result:
  "consume_stream h chunks acc = (evs, Inr text) \<Longrightarrow>
     evs = (case onText h of None \<Rightarrow> [] | Some f \<Rightarrow> map OnText (filter (\<lambda>c. c \<noteq> []) chunks))
     \<and> text = acc @ concat (filter (\<lambda>c. c \<noteq> []) chunks)"
proof (induction chunks arbitrary: acc evs)
  case Nil
  then show ?case by (auto split: option.splits)
next
  case (Cons c cs)
  show ?case
  proof (cases "c = []")
    case True
    then show ?thesis using Cons.IH [of acc evs] Cons.prems by (auto split: option.splits)
  next
    case False
    show ?thesis
    proof (cases "onText h")
      case None
      then show ?thesis using Cons.IH [of "acc @ c" evs] Cons.prems False by (auto split: option.splits)
    next
      case (Some f)
      with Cons.prems False obtain evs' where
        "f c = None" "consume_stream h cs (acc @ c) = (evs', Inr text)" "evs = OnText c # evs'"
        by (auto split: option.splits prod.splits)
      then show ?thesis using Cons.IH [of "acc @ c" evs'] Some False by (auto split: option.splits)
    qed
  qed
qed

lemma filterE_result:
  "filterE p xs = Inr ys \<Longrightarrow>
     (\<forall>x \<in> set xs. \<exists>b. p x = Inr b) \<and> ys = filter (\<lambda>x. p x = Inr True) xs"
proof (induction xs arbitrary: ys)
  case Nil
  then show ?case by simp
next
  case (Cons x xs)
  from Cons.prems obtain b r where b: "p x = Inr b" and r: "filterE p xs = Inr r"
    and ys: "ys = (if b then x # r else r)"
    by (cases "p x"; cases "filterE p xs") auto
  from Cons.IH [OF r] b ys show ?case by auto
qed

lemma filterE_returns:
  "(\<And>x. x \<in> set xs \<Longrightarrow> p x = Inr (q x)) \<Longrightarrow> filterE p xs = Inr (filter q xs)"
  by (induction xs) auto

lemma mapE_result:
  "mapE f xs = Inr ys \<Longrightarrow> length ys = length xs \<and> (\<forall>i < length xs. f (xs ! i) = Inr (ys ! i))"
proof (induction xs arbitrary: ys)
  case Nil
  then show ?case by simp
next
  case (Cons x xs)
  from Cons.prems obtain y r where y: "f x = Inr y" and r: "mapE f xs = Inr r" and ys: "ys = y # r"
    by (cases "f x"; cases "mapE f xs") auto
  from Cons.IH [OF r] y ys show ?case by (auto simp: nth_Cons split: nat.splits)
qed

lemma mapE_returns:
  "(\<And>x. x \<in> set xs \<Longrightarrow> f x = Inr (g x)) \<Longrightarrow> mapE f xs = Inr (map g xs)"
  by (induction xs) auto

lemma dispatch_tool_uses_result:
  "dispatch_tool_uses f calls = (evs, None) \<Longrightarrow> evs = map (\<lambda>c. OnToolUse (tool_use_block c)) calls"
proof (induction calls arbitrary: evs)
  case Nil
  then show ?case by simp
next
  case (Cons c cs)
  then show ?case by (auto split: option.splits prod.splits)
qed

lemma geminiToolCalls_result:
  assumes "geminiToolCalls cand = Inr calls"
  shows "(nullish (js_prop cand ''content'') \<and> calls = [])
       \<or> (\<exists>parts. js_prop (js_prop cand ''content'') ''parts'' = JArr parts
            \<and> (\<forall>p \<in> set parts. \<not> nullish p)
            \<and> calls = map (\<lambda>p. js_prop p ''functionCall'')
                        (filter (\<lambda>p. truthy (js_prop p ''functionCall'')) parts))"
proof (cases "nullish (js_prop cand ''content'')")
  case True
  with assms show ?thesis by (simp add: geminiToolCalls_def)
next
  case False
  with assms obtain parts kept where parts: "js_prop (js_prop cand ''content'') ''parts'' = JArr parts"
    and kept: "filterE (\<lambda>part. bindE (js_get part ''functionCall'') (\<lambda>fc. Inr (truthy fc))) parts = Inr kept"
    and calls: "calls = map (\<lambda>part. js_prop part ''functionCall'') kept"
    by (cases "js_prop (js_prop cand ''content'') ''parts''")
       (auto simp: geminiToolCalls_def Let_def split: sum.splits
             elim!: bindE.elims)
  from filterE_result [OF kept]
  have ok: "\<forall>x\<in>set parts. \<exists>b. bindE (js_get x ''functionCall'') (\<lambda>fc. Inr (truthy fc)) = Inr b"
    and k: "kept = filter (\<lambda>x. bindE (js_get x ''functionCall'') (\<lambda>fc. Inr (truthy fc)) = Inr True) parts"
    by auto
  have nn: "\<forall>p \<in> set parts. \<not> nullish p"
    using ok by (auto simp: js_get_def split: if_splits)
  then have "kept = filter (\<lambda>p. truthy (js_prop p ''functionCall'')) parts"
    unfolding k by (intro filter_cong) (auto simp: js_get_def)
  with parts nn calls show ?thesis by blast
qed

lemma finish_conversation_result:
  assumes "finish_conversation h text agg = (evs, Inr msg)"
  shows "\<exists>cand calls. response_candidate agg = Inr cand \<and> geminiToolCalls cand = Inr calls
           \<and> msg = finalMessage calls text cand
           \<and> evs = tool_events h calls @ message_events h msg"
proof -
  from assms obtain cand where cand: "response_candidate agg = Inr cand"
    by (cases "response_candidate agg") (auto simp: finish_conversation_def)
  from assms cand obtain calls where calls: "geminiToolCalls cand = Inr calls"
    by (cases "geminiToolCalls cand") (auto simp: finish_conversation_def)
  define d where "d = (case onToolUse h of
              Some f \<Rightarrow> if calls \<noteq> [] then dispatch_tool_uses f calls else ([], None)
            | None \<Rightarrow> ([], None))"
  obtain evs1 r where d: "d = (evs1, r)" by (cases d)
  from assms cand calls d have r: "r = None"
    by (cases r) (auto simp: finish_conversation_def d_def [symmetric])
  have evs1: "evs1 = tool_events h calls"
    using d r dispatch_tool_uses_result
    by (auto simp: d_def tool_events_def split: option.splits if_splits)
  from assms cand calls d r have
    "msg = finalMessage calls text cand \<and> evs = evs1 @ message_events h msg"
    by (auto simp: finish_conversation_def d_def [symmetric] Let_def message_events_def
             split: option.splits)
  with cand calls evs1 show ?thesis by blast
qed

lemma streamConversation_result:
  assumes "streamConversation P prompts gen msgs pt tools h = (evs, Inr msg)"
  shows "\<exists>req result agg cand calls.
           formatHistoryForGemini P msgs = Inr (req_contents req)
         \<and> gen req = Inr result \<and> stream_failure result = None \<and> response result = Inr agg
         \<and> response_candidate agg = Inr cand \<and> geminiToolCalls cand = Inr calls
         \<and> msg = finalMessage calls (concat (filter (\<lambda>c. c \<noteq> []) (stream result))) cand
         \<and> evs = Generate req # text_events h (stream result) @ tool_events h calls @ message_events h msg"
proof -
  from assms obtain sys where sys:
    "getSystemPrompt prompts (case pt of None \<Rightarrow> defaultPromptType | Some p \<Rightarrow> p) = Inr sys"
    by (cases "getSystemPrompt prompts (case pt of None \<Rightarrow> defaultPromptType | Some p \<Rightarrow> p)")
       (auto simp: streamConversation_def)
  from assms sys obtain tc where tc: "tools_config P tools = Inr tc"
    by (cases "tools_config P tools") (auto simp: streamConversation_def)
  from assms sys tc obtain hist where hist: "formatHistoryForGemini P msgs = Inr hist"
    by (cases "formatHistoryForGemini P msgs") (auto simp: streamConversation_def)
  define req where "req = \<lparr>req_model = defaultModel, req_systemInstruction = sys,
                 req_tools = tc, req_contents = hist\<rparr>"
  from assms sys tc hist obtain result where result: "gen req = Inr result"
    by (cases "gen req") (auto simp: streamConversation_def req_def)
  obtain evs1 r1 where c: "consume_stream h (stream result) [] = (evs1, r1)"
    by (cases "consume_stream h (stream result) []")
  from assms sys tc hist result c obtain acc where tx: "r1 = Inr acc"
    by (cases r1) (auto simp: streamConversation_def req_def)
  from assms sys tc hist result c tx have sf: "stream_failure result = None"
    by (cases "stream_failure result") (auto simp: streamConversation_def req_def)
  from assms sys tc hist result c tx sf obtain agg where agg: "response result = Inr agg"
    by (cases "response result") (auto simp: streamConversation_def req_def)
  obtain evs2 r2 where f: "finish_conversation h acc agg = (evs2, r2)"
    by (cases "finish_conversation h acc agg")
  from assms sys tc hist result c tx sf agg f
  have r2: "r2 = Inr msg" and evs: "evs = Generate req # evs1 @ evs2"
    by (auto simp: streamConversation_def req_def)
  from consume_stream_result [OF c [unfolded tx]]
  have evs1: "evs1 = text_events h (stream result)"
    and t: "acc = concat (filter (\<lambda>c. c \<noteq> []) (stream result))"
    by (auto simp: text_events_def)
  from finish_conversation_result [OF f [unfolded r2]] obtain cand calls where
    "response_candidate agg = Inr cand" "geminiToolCalls cand = Inr calls"
    "msg = finalMessage calls acc cand" "evs2 = tool_events h calls @ message_events h msg"
    by blast
  with hist result sf agg evs evs1 t show ?thesis
    by (intro exI [of _ req] exI [of _ result] exI [of _ agg] exI [of _ cand] exI [of _ calls])
       (simp add: req_def)
qed

lemma filter_is_OnText_text_events: "filter is_OnText (text_events h cs) = text_events h cs"
  by (auto simp: text_events_def split: option.splits)

lemma filter_is_OnText_tool_events: "filter is_OnText (tool_events h cs) = []"
  by (auto simp: tool_events_def split: option.splits)

lemma filter_is_OnText_message_events: "filter is_OnText (message_events h m) = []"
  by (auto simp: message_events_def split: option.splits)

lemmas run_simps =
  streamConversation_def getSystemPrompt_def tools_config_def formatHistoryForGemini_def
  format_message_def finish_conversation_def response_candidate_def geminiToolCalls_def
  finalMessage_def tool_use_block_def mapFinishReason_def js_get_def js_get_opt_def
  js_index0_def is_array_def is_string_def text_turn_def function_turn_def
  defaultModel_def defaultPromptType_def Let_def

lemma hello_run:
  "streamConversation example_parse example_prompts hello_provider [user_hi] None JUndefined
       quiet_handlers =
     ([Generate hi_request, OnText ''Hel'', OnText ''lo!'', OnMessage hello_message],
      Inr hello_message)"
  by (simp add: run_simps example_prompts_def user_hi_def hello_generation_def hello_response_def
        quiet_handlers_def hello_provider_def hi_request_def hello_message_def)

lemma search_run:
  "streamConversation example_parse example_prompts search_provider [user_hi] None JUndefined
       quiet_handlers =
     ([Generate hi_request, OnText ''Looking'', OnToolUse search_block, OnMessage search_message],
      Inr search_message)"
  by (simp add: run_simps example_prompts_def user_hi_def search_generation_def search_response_def
        quiet_handlers_def search_provider_def hi_request_def search_message_def search_block_def)

lemma bindE_Inr_iff: "bindE x f = Inr y \<longleftrightarrow> (\<exists>v. x = Inr v \<and> f v = Inr y)"
  by (cases x) auto

lemma textContent_blocks:
  assumes "\<forall>b \<in> set blocks. \<not> nullish b"
  shows "textContent (JArr blocks) = Inr (join_nl (map text_of (filter text_block blocks)))"
proof -
  have "filterE is_text_block blocks = Inr (filter text_block blocks)"
    using assms by (intro filterE_returns) (simp add: is_text_block_def js_get_def text_block_def)
  then show ?thesis by simp
qed

lemma format_message_unknown:
  "\<not> nullish m \<Longrightarrow> \<not> known_role m \<Longrightarrow> format_message P m = Inr JNull"
  by (simp add: format_message_def known_role_def js_get_def)

lemma format_message_known:
  assumes "format_message P m = Inr t" and "known_role m"
  shows "truthy t"
proof -
  have nn: "\<not> nullish m" using assms(2) by (cases m) (auto simp: known_role_def)
  consider "js_prop m ''role'' = JStr ''assistant''" | "js_prop m ''role'' = JStr ''user''"
    | "js_prop m ''role'' = JStr ''tool''"
    using assms(2) by (auto simp: known_role_def)
  then show ?thesis
  proof cases
    case 1
    with assms(1) nn show ?thesis
      by (auto simp: format_message_def js_get_def Let_def bindE_Inr_iff text_turn_def
               split: if_splits jsval.splits)
  next
    case 2
    with assms(1) nn show ?thesis
      by (auto simp: format_message_def js_get_def Let_def bindE_Inr_iff text_turn_def
                     function_turn_def
               split: if_splits)
  next
    case 3
    with assms(1) nn show ?thesis
      by (auto simp: format_message_def js_get_def Let_def bindE_Inr_iff function_turn_def
               split: if_splits)
  qed
qed

lemma mapE_known_only:
  assumes "\<forall>m \<in> set msgs. \<not> nullish m"
  shows "bindE (mapE (format_message P) msgs) (\<lambda>r. Inr (filter truthy r))
           = mapE (format_message P) (filter known_role msgs)"
  using assms
proof (induction msgs)
  case Nil
  show ?case by simp
next
  case (Cons m ms)
  then have ih: "bindE (mapE (format_message P) ms) (\<lambda>r. Inr (filter truthy r))
           = mapE (format_message P) (filter known_role ms)"
    and nn: "\<not> nullish m" by simp_all
  show ?case
  proof (cases "known_role m")
    case False
    with nn have "format_message P m = Inr JNull" by (rule format_message_unknown)
    have fm: "format_message P m = Inr JNull" by fact
    show ?thesis
    proof (cases "mapE (format_message P) ms")
      case (Inl e)
      then have "mapE (format_message P) (filter known_role ms) = Inl e" using ih by simp
      then show ?thesis using False fm Inl by simp
    next
      case (Inr r)
      then have "mapE (format_message P) (filter known_role ms) = Inr (filter truthy r)"
        using ih by simp
      then show ?thesis using False fm Inr by simp
    qed
  next
    case True
    show ?thesis
    proof (cases "format_message P m")
      case (Inl e)
      with True show ?thesis by simp
    next
      case (Inr t)
      with True have "truthy t" by (auto intro: format_message_known)
      note fm = Inr
      show ?thesis
      proof (cases "mapE (format_message P) ms")
        case (Inl e)
        then have "mapE (format_message P) (filter known_role ms) = Inl e" using ih by simp
        then show ?thesis using True fm Inl by simp
      next
        case (Inr r)
        then have "mapE (format_message P) (filter known_role ms) = Inr (filter truthy r)"
          using ih by simp
        then show ?thesis using True fm Inr \<open>truthy t\<close> by simp
      qed
    qed
  qed
qed

lemmas example_turns =
  user_hi_def system_turn_def assistant_ab_def text_a_def text_b_def result_block_def
  call_record_def assistant_call_def user_result_def user_text_first_def
  translated_call_def model_call_turn_def

lemma functionCall_part_result:
  assumes "functionCall_part call = Inr part"
  shows "part = JObj [(''functionCall'',
                       JObj [(''name'', js_prop (js_prop call ''function'') ''name''),
                             (''args'', js_prop (js_prop call ''function'') ''arguments'')])]"
  using assms
  by (auto simp: functionCall_part_def bindE_Inr_iff js_get_def split: if_splits)

lemma formatHistoryForGemini_nth:
  assumes "formatHistoryForGemini P msgs = Inr out" and "k < length msgs"
    and "known_role (msgs ! k)"
  shows "\<exists>t \<in> set out. format_message P (msgs ! k) = Inr t"
proof -
  from assms(1) obtain r where r: "mapE (format_message P) msgs = Inr r"
    and out: "out = filter truthy r"
    by (auto simp: formatHistoryForGemini_def bindE_Inr_iff)
  from mapE_result [OF r] assms(2)
  have f: "format_message P (msgs ! k) = Inr (r ! k)" and l: "k < length r" by auto
  from f assms(3) have "truthy (r ! k)" by (rule format_message_known)
  with l out have "r ! k \<in> set out" by simp
  with f show ?thesis by blast
qed

lemmas translate_simps =
  formatHistoryForGemini_def format_message_def functionCall_part_def js_get_def js_get_opt_def
  js_index0_def is_array_def is_string_def is_text_block_def text_turn_def function_turn_def
  example_parse_def Let_def

lemma map_of_clean_props:
  "map_of (map (\<lambda>(key, v). (key, f v)) (filter (\<lambda>(key, v). keep key) kvs)) k =
     (if keep k then map_option f (map_of kvs k) else None)"
  by (induction kvs) auto

lemma keys_clean_props:
  "fst ` set (map (\<lambda>(key, v). (key, f v)) (filter (\<lambda>(key, v). keep key) kvs)) =
     {k \<in> fst ` set kvs. keep k}"
  by (induction kvs) auto

lemma cleanParameters_eq_JStr: "cleanParameters v = JStr s \<longleftrightarrow> v = JStr s"
  by (cases v) auto

lemma cleanParameters_no_key: "\<not> has_key ''additional_properties'' (cleanParameters v)"
proof (induction v rule: cleanParameters.induct)
  case (1 xs)
  then show ?case by auto
next
  case (2 kvs)
  have "''additional_properties'' \<notin> fst ` set (map (\<lambda>(key, v). (key, cleanParameters v))
            (filter (\<lambda>(key, v). kept_key (JObj kvs) key) kvs))"
    unfolding keys_clean_props by (simp add: kept_key_def copies_key_def)
  moreover have "\<not> has_key ''additional_properties'' (snd p)"
    if "p \<in> set (map (\<lambda>(key, v). (key, cleanParameters v))
            (filter (\<lambda>(key, v). kept_key (JObj kvs) key) kvs))" for p
    using that 2 by auto
  ultimately show ?case by auto
qed simp_all

lemma cleanParameters_formats: "formats_accepted (cleanParameters v)"
proof (induction v rule: cleanParameters.induct)
  case (1 xs)
  then show ?case by auto
next
  case (2 kvs)
  let ?out = "map (\<lambda>(key, v). (key, cleanParameters v))
            (filter (\<lambda>(key, v). kept_key (JObj kvs) key) kvs)"
  have sub: "formats_accepted (snd p)" if "p \<in> set ?out" for p
    using that 2 by auto
  have top: "js_prop (JObj ?out) ''format'' \<in> {JStr ''enum'', JStr ''date-time''}"
    if t: "js_prop (JObj ?out) ''type'' = JStr ''string''" and f: "''format'' \<in> fst ` set ?out"
  proof -
    have ct: "kept_key (JObj kvs) ''type''"
      by (simp add: kept_key_def copies_key_def skips_format_def creates_own_property_def)
    from t have t': "js_prop (JObj kvs) ''type'' = JStr ''string''"
      by (auto simp: map_of_clean_props ct cleanParameters_eq_JStr split: option.splits)
    from f have cf: "kept_key (JObj kvs) ''format''" unfolding keys_clean_props by simp
    with t' have "js_prop (JObj kvs) ''format'' \<in> {JStr ''enum'', JStr ''date-time''}"
      by (simp add: kept_key_def copies_key_def skips_format_def)
    then show ?thesis
      by (auto simp: map_of_clean_props cf split: option.splits)
  qed
  show ?case using sub top by simp
qed simp_all

lemma map_of_set_prop: "map_of (set_prop kvs k v) k' = (if k' = k then Some v else map_of kvs k')"
  by (induction kvs k v rule: set_prop.induct) auto

lemma map_of_delete_prop: "map_of (delete_prop kvs k) k' = (if k' = k then None else map_of kvs k')"
  unfolding delete_prop_def by (induction kvs) auto

lemmas schema_examples =
  email_schema_def enum_schema_def int_schema_def search_schema_def search_tool_def

lemma unchanged_refl: "unchanged h h"
  by (simp add: unchanged_def)

lemma unchanged_trans: "unchanged h h1 \<Longrightarrow> unchanged h1 h2 \<Longrightarrow> unchanged h h2"
  by (auto simp: unchanged_def)

lemma unchanged_append: "unchanged h (h @ xs)"
  by (simp add: unchanged_def nth_append)

lemma unchanged_hwrite: "length h \<le> c \<Longrightarrow> unchanged h h' \<Longrightarrow> unchanged h (hwrite h' c key v)"
  by (auto simp: unchanged_def hwrite_def)

lemma unchanged_hdelete: "length h \<le> c \<Longrightarrow> unchanged h h' \<Longrightarrow> unchanged h (hdelete h' c k)"
  by (auto simp: unchanged_def hdelete_def)

lemma clean_frame:
  "(cleanParameters_h n h v = Some (h', v') \<longrightarrow> unchanged h h')"
  "(clean_loop n h params cleanedParams keys = Some h'' \<longrightarrow>
      length h \<le> length h'' \<and> (\<forall>a < length h. a \<noteq> cleanedParams \<longrightarrow> h'' ! a = h ! a))"
proof (induction n h v and n h params cleanedParams keys arbitrary: h' v' and h''
        rule: cleanParameters_h_clean_loop.induct)
  case (1 n h params)
  show ?case
  proof (cases n)
    case 0
    then show ?thesis by simp
  next
    case (Suc m)
    show ?thesis
    proof (intro impI)
      assume a: "cleanParameters_h n h (HRef params) = Some (h', v')"
      let ?h1 = "h @ [case h ! params of HArray xs \<Rightarrow> HArray [] | HObject kvs \<Rightarrow> HObject []]"
      from a Suc have p: "params < length h" by (auto split: if_splits)
      from a Suc p have l: "clean_loop m ?h1 params (length h) (own_keys (?h1 ! params)) = Some h'"
        by (auto simp: Let_def split: option.splits)
      from "1.IH" [OF Suc p refl refl, of h'] l
      have "length ?h1 \<le> length h' \<and> (\<forall>a < length ?h1. a \<noteq> length h \<longrightarrow> h' ! a = ?h1 ! a)"
        by simp
      then show "unchanged h h'"
        by (auto simp: unchanged_def nth_append)
    qed
  qed
next
  case (8 n h params cleanedParams key keys)
  show ?case
  proof (intro impI)
    assume a: "clean_loop n h params cleanedParams (key # keys) = Some h''"
    let ?skip = "skips_format_h h params key"
    show "length h \<le> length h'' \<and> (\<forall>a < length h. a \<noteq> cleanedParams \<longrightarrow> h'' ! a = h ! a)"
    proof (cases ?skip)
      case True
      with a have "clean_loop n h params cleanedParams keys = Some h''" by auto
      with "8.IH"(1) [OF True] show ?thesis by simp
    next
      case False
      show ?thesis
      proof (cases "key \<noteq> Name ''additional_properties''")
        case k: True
        from a False k obtain h1 v1 where
          c: "cleanParameters_h n h (hread h params key) = Some (h1, v1)"
          and l: "clean_loop n (hwrite h1 cleanedParams key v1) params cleanedParams keys = Some h''"
          by (auto split: option.splits)
        from "8.IH"(2) [OF False k] c have u: "unchanged h h1" by simp
        from "8.IH"(3) [OF False k c refl, of h''] l
        have "length (hwrite h1 cleanedParams key v1) \<le> length h''
              \<and> (\<forall>a < length (hwrite h1 cleanedParams key v1). a \<noteq> cleanedParams \<longrightarrow>
                    h'' ! a = hwrite h1 cleanedParams key v1 ! a)"
          by simp
        with u show ?thesis by (auto simp: unchanged_def hwrite_def)
      next
        case k: False
        with a False have "clean_loop n h params cleanedParams keys = Some h''" by auto
        with "8.IH"(4) [OF False] k show ?thesis by simp
      qed
    qed
  qed
qed (simp_all add: unchanged_refl)

lemma transform_tool_frame:
  assumes "transform_tool_h n h tool = Some (h', r)"
  shows "unchanged h h' \<and> r = HRef (length h)"
proof (cases "htruthy (hread (h @ [HObject (own_props_h h tool)]) (length h) (Name ''input_schema''))")
  case False
  with assms show ?thesis
    by (auto simp: transform_tool_h_def Let_def unchanged_append)
next
  case True
  let ?h1 = "h @ [HObject (own_props_h h tool)]"
  from assms True obtain h2 cleaned where
    c: "cleanParameters_h n ?h1 (hread ?h1 (length h) (Name ''input_schema'')) = Some (h2, cleaned)"
    and h': "h' = hdelete (hwrite h2 (length h) (Name ''parameters'') cleaned) (length h) ''input_schema''"
    and r: "r = HRef (length h)"
    by (auto simp: transform_tool_h_def Let_def split: option.splits)
  from clean_frame(1) c have "unchanged ?h1 h2" by blast
  with unchanged_append [of h] have "unchanged h h2" by (rule unchanged_trans)
  then show ?thesis
    unfolding h' r by (simp add: unchanged_hdelete unchanged_hwrite)
qed

lemma transform_loop_frame:
  "transform_loop n h tools result ks = Some h' \<Longrightarrow>
     length h \<le> length h' \<and> (\<forall>a < length h. a \<noteq> result \<longrightarrow> h' ! a = h ! a)"
proof (induction ks arbitrary: h)
  case Nil
  then show ?case by simp
next
  case (Cons k ks)
  from Cons.prems obtain h1 newTool where
    t: "transform_tool_h n h (hread h tools (Index k)) = Some (h1, newTool)"
    and l: "transform_loop n (hwrite h1 result (Index k) newTool) tools result ks = Some h'"
    by (auto split: option.splits)
  from transform_tool_frame [OF t] have u: "unchanged h h1" by simp
  from Cons.IH [OF l] u show ?case
    by (auto simp: unchanged_def hwrite_def)
qed

lemma transformToolsForGemini_frame:
  assumes "transformToolsForGemini_h n h tools = Some (h', result)"
  shows "unchanged h h' \<and> result = length h"
proof -
  from assms obtain ts where p: "tools < length h" and ts: "h ! tools = HArray ts"
    by (auto simp: transformToolsForGemini_h_def split: if_splits hobj.splits)
  with assms have l: "transform_loop n (h @ [HArray []]) tools (length h) [0 ..< length ts] = Some h'"
    and r: "result = length h"
    by (auto simp: transformToolsForGemini_h_def Let_def split: option.splits)
  from transform_loop_frame [OF l] show ?thesis
    using r by (auto simp: unchanged_def nth_append)
qed

lemma those_Some:
  "those ys = Some zs \<Longrightarrow> \<forall>y \<in> set ys. \<exists>z. y = Some z"
  by (induction ys arbitrary: zs) (auto split: option.splits)

lemma heap_value_unchanged:
  "unchanged h h' \<Longrightarrow> heap_value m h v = Some j \<Longrightarrow> heap_value m h' v = Some j"
proof (induction m arbitrary: v j)
  case 0
  then show ?case by (cases v) auto
next
  case (Suc m)
  show ?case
  proof (cases v)
    case (HRef a)
    with Suc.prems have a: "a < length h" by (auto split: if_splits)
    with Suc.prems(1) have a': "a < length h'" and eq: "h' ! a = h ! a"
      by (auto simp: unchanged_def)
    show ?thesis
    proof (cases "h ! a")
      case (HArray xs)
      with Suc.prems(2) HRef a obtain js where js: "those (map (heap_value m h) xs) = Some js"
        by auto
      have meq: "map (heap_value m h') xs = map (heap_value m h) xs"
      proof (intro map_cong refl)
        fix x assume "x \<in> set xs"
        with those_Some [OF js] obtain z where "heap_value m h x = Some z" by auto
        with Suc.IH [OF Suc.prems(1)] show "heap_value m h' x = heap_value m h x" by simp
      qed
      have "heap_value (Suc m) h' (HRef a) = map_option JArr (those (map (heap_value m h') xs))"
        using a' eq HArray by simp
      also have "\<dots> = map_option JArr (those (map (heap_value m h) xs))"
        by (simp only: meq)
      also have "\<dots> = heap_value (Suc m) h (HRef a)"
        using a HArray by simp
      finally show ?thesis using Suc.prems(2) HRef by simp
    next
      case (HObject kvs)
      let ?f = "\<lambda>h. (\<lambda>(k, v). map_option (Pair k) (heap_value m h v))"
      from Suc.prems(2) HRef a HObject obtain js where js: "those (map (?f h) kvs) = Some js"
        by auto
      have meq: "map (?f h') kvs = map (?f h) kvs"
      proof (intro map_cong refl)
        fix p assume "p \<in> set kvs"
        with those_Some [OF js] obtain z where "?f h p = Some z" by auto
        then obtain z' where "heap_value m h (snd p) = Some z'" by (cases p) auto
        with Suc.IH [OF Suc.prems(1)] show "?f h' p = ?f h p" by (cases p) simp
      qed
      have "heap_value (Suc m) h' (HRef a) = map_option JObj (those (map (?f h') kvs))"
        using a' eq HObject by simp
      also have "\<dots> = map_option JObj (those (map (?f h) kvs))"
        by (simp only: meq)
      also have "\<dots> = heap_value (Suc m) h (HRef a)"
        using a HObject by simp
      finally show ?thesis using Suc.prems(2) HRef by simp
    qed
  qed (use Suc.prems in auto)
qed

lemma those_map_Some_iff:
  "those (map f xs) = Some ys \<longleftrightarrow> list_all2 (\<lambda>x y. f x = Some y) xs ys"
proof (induction xs arbitrary: ys)
  case Nil
  show ?case by auto
next
  case (Cons x xs)
  show ?case
  proof (cases "f x")
    case None
    then show ?thesis by (auto simp: list_all2_Cons1)
  next
    case (Some y)
    show ?thesis
    proof (cases "those (map f xs)")
      case None
      with Some Cons.IH show ?thesis by (auto simp: list_all2_Cons1)
    next
      case (Some zs)
      with \<open>f x = Some y\<close> Cons.IH [of zs] Cons.IH show ?thesis
        by (auto simp: list_all2_Cons1)
    qed
  qed
qed

lemma heap_value_HStr: "heap_value m h v = Some j \<Longrightarrow> (v = HStr s \<longleftrightarrow> j = JStr s)"
  by (cases v; cases m) (auto split: if_splits hobj.splits)

lemma heap_value_prim:
  "heap_value m h v = Some j \<Longrightarrow> \<forall>a. v \<noteq> HRef a \<Longrightarrow>
     cleanParameters j = j \<and> cleanParameters_h m h v = Some (h, v) \<and> (\<forall>h''. heap_value m h'' v = Some j)"
  by (cases v) auto

lemma agrees_step:
  assumes u: "unchanged h h1" and c: "c < length h"
    and a: "agrees (Suc c) (hwrite h1 c key v) h''"
  shows "agrees (Suc c) h h''" and "agrees (length h) h1 h''"
proof -
  have l: "length (hwrite h1 c key v) = length h1" by (simp add: hwrite_def)
  have n: "hwrite h1 c key v ! a = h1 ! a" if "a \<noteq> c" for a
    using that by (simp add: hwrite_def)
  from u have lh: "length h \<le> length h1" and s: "\<And>a. a < length h \<Longrightarrow> h1 ! a = h ! a"
    by (auto simp: unchanged_def)
  from a l n lh s show "agrees (Suc c) h h''"
    unfolding agrees_def by (metis Suc_le_lessD less_le_trans nat_less_le order_trans)
  from a l n c show "agrees (length h) h1 h''"
    unfolding agrees_def by (metis Suc_leI less_le_trans nat_less_le)
qed

lemma clean_loop_array:
  assumes IH: "\<And>h v j. heap_value m h v = Some j \<Longrightarrow> distinct_keys j \<Longrightarrow>
            \<exists>h' v'. cleanParameters_h m h v = Some (h', v')
              \<and> (\<forall>h''. agrees (length h) h' h'' \<longrightarrow> heap_value m h'' v' = Some (cleanParameters j))"
    and p: "p < length h0" "h0 ! p = HArray xs" and c0: "length h0 \<le> c"
  shows "unchanged h0 h \<Longrightarrow> c < length h \<Longrightarrow> drop i xs = rest \<Longrightarrow>
         list_all2 (\<lambda>x j. heap_value m h0 x = Some j \<and> distinct_keys j) rest jrest \<Longrightarrow>
         h ! c = HArray acc \<Longrightarrow> length acc = i \<Longrightarrow>
         (\<forall>h''. agrees (Suc c) h h'' \<longrightarrow> list_all2 (\<lambda>x j. heap_value m h'' x = Some j) acc jacc) \<Longrightarrow>
         \<exists>h' acc'. clean_loop m h p c (map Index [i ..< length xs]) = Some h'
            \<and> unchanged h0 h' \<and> c < length h' \<and> h' ! c = HArray acc'
            \<and> (\<forall>h''. agrees (Suc c) h' h'' \<longrightarrow>
                  list_all2 (\<lambda>x j. heap_value m h'' x = Some j) acc'
                    (jacc @ map cleanParameters jrest))"
proof (induction rest arbitrary: i h acc jacc jrest)
  case Nil
  then have "length xs \<le> i" by simp
  then have "[i ..< length xs] = []" by simp
  moreover from Nil.prems(4) have "jrest = []" by simp
  ultimately show ?case using Nil.prems by auto
next
  case (Cons x rest)
  from Cons.prems(3) have i: "i < length xs"
    by (cases "i < length xs") auto
  from Cons.prems(3) Cons_nth_drop_Suc [OF i] have x: "xs ! i = x" and d: "drop (Suc i) xs = rest"
    by simp_all
  from Cons.prems(4) obtain j js where jrest: "jrest = j # js"
    and j: "heap_value m h0 x = Some j" "distinct_keys j"
    and js: "list_all2 (\<lambda>x j. heap_value m h0 x = Some j \<and> distinct_keys j) rest js"
    by (auto simp: list_all2_Cons1)
  from Cons.prems(1) p have ph: "p < length h" "h ! p = HArray xs"
    by (auto simp: unchanged_def)
  then have r: "hread h p (Index i) = x" using i x by (simp add: hread_def)
  from heap_value_unchanged [OF Cons.prems(1) j(1)] have "heap_value m h x = Some j" .
  from IH [OF this j(2)] obtain h1 v1 where
    c1: "cleanParameters_h m h x = Some (h1, v1)"
    and v1: "\<And>h''. agrees (length h) h1 h'' \<Longrightarrow> heap_value m h'' v1 = Some (cleanParameters j)"
    by blast
  from clean_frame(1) c1 have u1: "unchanged h h1" by blast
  let ?h2 = "hwrite h1 c (Index i) v1"
  from u1 Cons.prems(2,5) have h1c: "h1 ! c = HArray acc" "c < length h1"
    by (auto simp: unchanged_def)
  with Cons.prems(6) have h2c: "?h2 ! c = HArray (acc @ [v1])" "c < length ?h2"
    by (simp_all add: hwrite_def)
  have u2: "unchanged h0 ?h2"
    using unchanged_trans [OF Cons.prems(1) u1] c0 by (rule unchanged_hwrite [rotated])
  have inv: "\<forall>h''. agrees (Suc c) ?h2 h'' \<longrightarrow>
               list_all2 (\<lambda>x j. heap_value m h'' x = Some j) (acc @ [v1]) (jacc @ [cleanParameters j])"
  proof (intro allI impI)
    fix h'' assume a: "agrees (Suc c) ?h2 h''"
    from agrees_step [OF u1 Cons.prems(2) a] Cons.prems(7) v1
    show "list_all2 (\<lambda>x j. heap_value m h'' x = Some j) (acc @ [v1]) (jacc @ [cleanParameters j])"
      by (auto intro!: list_all2_appendI)
  qed
  from Cons.IH [OF u2 h2c(2) d js h2c(1) _ inv] Cons.prems(6)
  obtain h' acc' where
    l: "clean_loop m ?h2 p c (map Index [Suc i ..< length xs]) = Some h'"
    and res: "unchanged h0 h'" "c < length h'" "h' ! c = HArray acc'"
      "\<forall>h''. agrees (Suc c) h' h'' \<longrightarrow>
          list_all2 (\<lambda>x j. heap_value m h'' x = Some j) acc'
            ((jacc @ [cleanParameters j]) @ map cleanParameters js)"
    by auto
  have "clean_loop m h p c (map Index [i ..< length xs]) = Some h'"
    using i r c1 l by (simp add: upt_conv_Cons skips_format_h_def)
  with res jrest show ?case by auto
qed

lemma set_hprop_fresh: "k \<notin> fst ` set acc \<Longrightarrow> set_hprop acc k v = acc @ [(k, v)]"
  by (induction acc k v rule: set_hprop.induct) auto

lemma lookup_denotes:
  assumes "list_all2 (\<lambda>p q. fst q = fst p \<and> heap_value m h (snd p) = Some (snd q) \<and> distinct_keys (snd q)) kvs jkvs"
  shows "heap_value m h (case map_of kvs t of Some v \<Rightarrow> v | None \<Rightarrow> HUndefined)
           = Some (js_prop (JObj jkvs) t)"
  using assms
proof (induction kvs jkvs rule: list_all2_induct)
  case Nil
  show ?case by simp
next
  case (Cons p kvs q jkvs)
  then show ?case by (cases p; cases q) auto
qed

lemma skips_format_denotes:
  assumes all: "list_all2 (\<lambda>p q. fst q = fst p \<and> heap_value m h0 (snd p) = Some (snd q) \<and> distinct_keys (snd q)) kvs jkvs"
    and p: "p < length h" "h ! p = HObject kvs"
  shows "skips_format_h h p (Name k) \<longleftrightarrow> skips_format (JObj jkvs) k"
proof -
  have r: "hread h p (Name t) = (case map_of kvs t of Some v \<Rightarrow> v | None \<Rightarrow> HUndefined)" for t
    using p by (simp add: hread_def)
  from lookup_denotes [OF all]
  have d: "heap_value m h0 (hread h p (Name t)) = Some (js_prop (JObj jkvs) t)" for t
    unfolding r .
  have e: "hread h p (Name t) = HStr s \<longleftrightarrow> js_prop (JObj jkvs) t = JStr s" for t s
    using heap_value_HStr [OF d] .
  show ?thesis
    unfolding skips_format_h_def skips_format_def by (simp add: e)
qed

lemma clean_loop_object:
  assumes IH: "\<And>h v j. heap_value m h v = Some j \<Longrightarrow> distinct_keys j \<Longrightarrow>
            \<exists>h' v'. cleanParameters_h m h v = Some (h', v')
              \<and> (\<forall>h''. agrees (length h) h' h'' \<longrightarrow> heap_value m h'' v' = Some (cleanParameters j))"
    and p: "p < length h0" "h0 ! p = HObject kvs" and c0: "length h0 \<le> c"
    and dk: "distinct (map fst kvs)"
    and all: "list_all2 (\<lambda>p q. fst q = fst p \<and> heap_value m h0 (snd p) = Some (snd q) \<and> distinct_keys (snd q)) kvs jkvs"
  shows "unchanged h0 h \<Longrightarrow> c < length h \<Longrightarrow> set rest \<subseteq> set kvs \<Longrightarrow> distinct (map fst rest) \<Longrightarrow>
         list_all2 (\<lambda>p q. fst q = fst p \<and> heap_value m h0 (snd p) = Some (snd q) \<and> distinct_keys (snd q)) rest jrest \<Longrightarrow>
         h ! c = HObject acc \<Longrightarrow> fst ` set acc \<inter> fst ` set rest = {} \<Longrightarrow>
         (\<forall>h''. agrees (Suc c) h h'' \<longrightarrow>
            list_all2 (\<lambda>p q. fst q = fst p \<and> heap_value m h'' (snd p) = Some (snd q)) acc jacc) \<Longrightarrow>
         \<exists>h' acc'. clean_loop m h p c (map (\<lambda>(k, v). Name k) rest) = Some h'
            \<and> unchanged h0 h' \<and> c < length h' \<and> h' ! c = HObject acc'
            \<and> (\<forall>h''. agrees (Suc c) h' h'' \<longrightarrow>
                  list_all2 (\<lambda>p q. fst q = fst p \<and> heap_value m h'' (snd p) = Some (snd q)) acc'
                    (jacc @ map (\<lambda>(key, v). (key, cleanParameters v))
                             (filter (\<lambda>(key, v). kept_key (JObj jkvs) key) jrest)))"
proof (induction rest arbitrary: h acc jacc jrest)
  case Nil
  then show ?case by auto
next
  case (Cons e rest)
  obtain k v where e: "e = (k, v)" by (cases e)
  from Cons.prems(5) e obtain j js where jrest: "jrest = (k, j) # js"
    and j: "heap_value m h0 v = Some j" "distinct_keys j"
    and js: "list_all2 (\<lambda>p q. fst q = fst p \<and> heap_value m h0 (snd p) = Some (snd q) \<and> distinct_keys (snd q)) rest js"
    by (auto simp: list_all2_Cons1)
  from Cons.prems(1) p have ph: "p < length h" "h ! p = HObject kvs"
    by (auto simp: unchanged_def)
  from Cons.prems(3) e dk have "map_of kvs k = Some v" by simp
  with ph have r: "hread h p (Name k) = v" by (simp add: hread_def)
  note sk = skips_format_denotes [OF all ph, of k]
  have sub: "set rest \<subseteq> set kvs" "distinct (map fst rest)" "k \<notin> fst ` set rest"
    using Cons.prems(3,4) e by auto
  have disj: "fst ` set acc \<inter> fst ` set rest = {}" and kacc: "k \<notin> fst ` set acc"
    using Cons.prems(7) e by auto
  show ?case
  proof (cases "copies_key (JObj jkvs) k")
    case False
    then have "clean_loop m h p c (map (\<lambda>(k, v). Name k) (e # rest))
                 = clean_loop m h p c (map (\<lambda>(k, v). Name k) rest)"
      using sk e by (auto simp: copies_key_def)
    with Cons.IH [OF Cons.prems(1,2) sub(1,2) js Cons.prems(6) disj Cons.prems(8)] False jrest
    show ?thesis by (simp add: kept_key_def)
  next
    case True
    then have nsk: "\<not> skips_format_h h p (Name k)" and nap: "k \<noteq> ''additional_properties''"
      using sk by (auto simp: copies_key_def)
    from heap_value_unchanged [OF Cons.prems(1) j(1)] have "heap_value m h v = Some j" .
    from IH [OF this j(2)] obtain h1 v1 where
      c1: "cleanParameters_h m h v = Some (h1, v1)"
      and v1: "\<And>h''. agrees (length h) h1 h'' \<Longrightarrow> heap_value m h'' v1 = Some (cleanParameters j)"
      by blast
    from clean_frame(1) c1 have u1: "unchanged h h1" by blast
    let ?h2 = "hwrite h1 c (Name k) v1"
    from u1 Cons.prems(2,6) have h1c: "h1 ! c = HObject acc" "c < length h1"
      by (auto simp: unchanged_def)
    have u2: "unchanged h0 ?h2"
      using unchanged_trans [OF Cons.prems(1) u1] c0 by (rule unchanged_hwrite [rotated])
    have step: "clean_loop m h p c (map (\<lambda>(k, v). Name k) (e # rest))
                  = clean_loop m ?h2 p c (map (\<lambda>(k, v). Name k) rest)"
      using e nsk nap r c1 by simp
    show ?thesis
    proof (cases "k = ''__proto__''")
      case proto: True
      with h1c have h2c: "?h2 ! c = HObject acc" "c < length ?h2"
        by (simp_all add: hwrite_def)
      have inv: "\<forall>h''. agrees (Suc c) ?h2 h'' \<longrightarrow>
               list_all2 (\<lambda>p q. fst q = fst p \<and> heap_value m h'' (snd p) = Some (snd q)) acc jacc"
        using agrees_step(1) [OF u1 Cons.prems(2)] Cons.prems(8) by blast
      from Cons.IH [OF u2 h2c(2) sub(1,2) js h2c(1) disj inv] step proto jrest
      show ?thesis by (simp add: kept_key_def creates_own_property_def)
    next
      case name: False
      with h1c kacc have h2c: "?h2 ! c = HObject (acc @ [(k, v1)])" "c < length ?h2"
        by (simp_all add: hwrite_def set_hprop_fresh)
      have disj2: "fst ` set (acc @ [(k, v1)]) \<inter> fst ` set rest = {}"
        using disj sub(3) by auto
      have inv: "\<forall>h''. agrees (Suc c) ?h2 h'' \<longrightarrow>
               list_all2 (\<lambda>p q. fst q = fst p \<and> heap_value m h'' (snd p) = Some (snd q))
                 (acc @ [(k, v1)]) (jacc @ [(k, cleanParameters j)])"
      proof (intro allI impI)
        fix h'' assume a: "agrees (Suc c) ?h2 h''"
        from agrees_step [OF u1 Cons.prems(2) a] Cons.prems(8) v1
        show "list_all2 (\<lambda>p q. fst q = fst p \<and> heap_value m h'' (snd p) = Some (snd q))
                 (acc @ [(k, v1)]) (jacc @ [(k, cleanParameters j)])"
          by (auto intro!: list_all2_appendI)
      qed
      from Cons.IH [OF u2 h2c(2) sub(1,2) js h2c(1) disj2 inv]
      obtain h' acc' where
        l: "clean_loop m ?h2 p c (map (\<lambda>(k, v). Name k) rest) = Some h'"
        and res: "unchanged h0 h'" "c < length h'" "h' ! c = HObject acc'"
          "\<forall>h''. agrees (Suc c) h' h'' \<longrightarrow>
            list_all2 (\<lambda>p q. fst q = fst p \<and> heap_value m h'' (snd p) = Some (snd q)) acc'
              ((jacc @ [(k, cleanParameters j)]) @ map (\<lambda>(key, v). (key, cleanParameters v))
                               (filter (\<lambda>(key, v). kept_key (JObj jkvs) key) js))"
        by blast
      from step l have "clean_loop m h p c (map (\<lambda>(k, v). Name k) (e # rest)) = Some h'"
        by simp
      with res jrest True name show ?thesis
        by (auto simp: kept_key_def creates_own_property_def)
    qed
  qed
qed

lemma agrees_refl: "agrees lo h h"
  by (simp add: agrees_def)

lemma agrees_mono: "agrees lo h h' \<Longrightarrow> lo \<le> lo' \<Longrightarrow> agrees lo' h h'"
  by (auto simp: agrees_def)

lemma entries_denote:
  "those (map (\<lambda>(k, v). map_option (Pair k) (heap_value m h v)) kvs) = Some jkvs \<longleftrightarrow>
     list_all2 (\<lambda>p q. fst q = fst p \<and> heap_value m h (snd p) = Some (snd q)) kvs jkvs"
proof -
  have e: "(\<lambda>x y. (case x of (k, v) \<Rightarrow> map_option (Pair k) (heap_value m h v)) = Some y)
        = (\<lambda>p q. fst q = fst p \<and> heap_value m h (snd p) = Some (snd q))"
    by (auto simp: fun_eq_iff)
  show ?thesis unfolding those_map_Some_iff e ..
qed

lemma cleanParameters_h_refines:
  "heap_value m h v = Some j \<Longrightarrow> distinct_keys j \<Longrightarrow>
     \<exists>h' v'. cleanParameters_h m h v = Some (h', v')
       \<and> (\<forall>h''. agrees (length h) h' h'' \<longrightarrow> heap_value m h'' v' = Some (cleanParameters j))"
proof (induction m arbitrary: h v j)
  case 0
  then have "\<forall>a. v \<noteq> HRef a" by auto
  from heap_value_prim [OF "0.prems"(1) this] show ?case by auto
next
  case (Suc m)
  show ?case
  proof (cases "\<exists>p. v = HRef p")
    case False
    then have "\<forall>a. v \<noteq> HRef a" by auto
    from heap_value_prim [OF Suc.prems(1) this] show ?thesis by auto
  next
    case True
    then obtain p where v: "v = HRef p" by blast
    with Suc.prems(1) have p: "p < length h" by (auto split: if_splits)
    let ?c = "length h"
    show ?thesis
    proof (cases "h ! p")
      case (HArray xs)
      let ?h1 = "h @ [HArray []]"
      from Suc.prems(1) v p HArray obtain js where j: "j = JArr js"
        and js: "list_all2 (\<lambda>x j. heap_value m h x = Some j) xs js"
        by (auto simp: those_map_Some_iff)
      from Suc.prems(2) j have "\<forall>x \<in> set js. distinct_keys x" by simp
      with js have all: "list_all2 (\<lambda>x j. heap_value m h x = Some j \<and> distinct_keys j) xs js"
        by (auto simp: list_all2_conv_all_nth)
      have "\<exists>h' acc'. clean_loop m ?h1 p ?c (map Index [0 ..< length xs]) = Some h'
            \<and> unchanged h h' \<and> ?c < length h' \<and> h' ! ?c = HArray acc'
            \<and> (\<forall>h''. agrees (Suc ?c) h' h'' \<longrightarrow>
                  list_all2 (\<lambda>x j. heap_value m h'' x = Some j) acc'
                    ([] @ map cleanParameters js))"
        by (rule clean_loop_array [where rest = xs and acc = "[]", OF Suc.IH p HArray])
           (simp_all add: unchanged_append all)
      then obtain h' acc' where l: "clean_loop m ?h1 p ?c (map Index [0 ..< length xs]) = Some h'"
        and c: "?c < length h'" "h' ! ?c = HArray acc'"
        and d: "\<And>h''. agrees (Suc ?c) h' h'' \<Longrightarrow>
                  list_all2 (\<lambda>x j. heap_value m h'' x = Some j) acc' (map cleanParameters js)"
        by auto
      have 1: "cleanParameters_h (Suc m) h v = Some (h', HRef ?c)"
        using v p HArray l by (simp add: nth_append)
      have 2: "heap_value (Suc m) h'' (HRef ?c) = Some (cleanParameters j)"
        if a: "agrees ?c h' h''" for h''
      proof -
        from a c have "?c < length h''" "h'' ! ?c = HArray acc'" by (auto simp: agrees_def)
        moreover from d [OF agrees_mono [OF a]]
        have "those (map (heap_value m h'') acc') = Some (map cleanParameters js)"
          by (simp add: those_map_Some_iff)
        ultimately show ?thesis using j by simp
      qed
      from 1 2 show ?thesis by blast
    next
      case (HObject kvs)
      let ?h1 = "h @ [HObject []]"
      from Suc.prems(1) v p HObject obtain jkvs where j: "j = JObj jkvs"
        and js: "list_all2 (\<lambda>p q. fst q = fst p \<and> heap_value m h (snd p) = Some (snd q)) kvs jkvs"
        by (auto simp: entries_denote)
      from js have keys: "map fst kvs = map fst jkvs"
        by (induction kvs jkvs rule: list_all2_induct) auto
      from Suc.prems(2) j have dj: "distinct (map fst jkvs)" "\<forall>q \<in> set jkvs. distinct_keys (snd q)"
        by simp_all
      with js have all: "list_all2 (\<lambda>p q. fst q = fst p \<and> heap_value m h (snd p) = Some (snd q)
                                    \<and> distinct_keys (snd q)) kvs jkvs"
        by (auto simp: list_all2_conv_all_nth)
      from dj keys have dk: "distinct (map fst kvs)" by simp
      have "\<exists>h' acc'. clean_loop m ?h1 p ?c (map (\<lambda>(k, v). Name k) kvs) = Some h'
            \<and> unchanged h h' \<and> ?c < length h' \<and> h' ! ?c = HObject acc'
            \<and> (\<forall>h''. agrees (Suc ?c) h' h'' \<longrightarrow>
                  list_all2 (\<lambda>p q. fst q = fst p \<and> heap_value m h'' (snd p) = Some (snd q)) acc'
                    ([] @ map (\<lambda>(key, v). (key, cleanParameters v))
                             (filter (\<lambda>(key, v). kept_key (JObj jkvs) key) jkvs)))"
        by (rule clean_loop_object [where rest = kvs and acc = "[]", OF Suc.IH p HObject _ dk all])
           (simp_all add: unchanged_append all dk)
      then obtain h' acc' where l: "clean_loop m ?h1 p ?c (map (\<lambda>(k, v). Name k) kvs) = Some h'"
        and c: "?c < length h'" "h' ! ?c = HObject acc'"
        and d: "\<And>h''. agrees (Suc ?c) h' h'' \<Longrightarrow>
                  list_all2 (\<lambda>p q. fst q = fst p \<and> heap_value m h'' (snd p) = Some (snd q)) acc'
                    (map (\<lambda>(key, v). (key, cleanParameters v))
                             (filter (\<lambda>(key, v). kept_key (JObj jkvs) key) jkvs))"
        by auto
      have 1: "cleanParameters_h (Suc m) h v = Some (h', HRef ?c)"
        using v p HObject l by (simp add: nth_append)
      have 2: "heap_value (Suc m) h'' (HRef ?c) = Some (cleanParameters j)"
        if a: "agrees ?c h' h''" for h''
      proof -
        from a c have "?c < length h''" "h'' ! ?c = HObject acc'" by (auto simp: agrees_def)
        moreover from d [OF agrees_mono [OF a]]
        have "those (map (\<lambda>(k, v). map_option (Pair k) (heap_value m h'' v)) acc')
                = Some (map (\<lambda>(key, v). (key, cleanParameters v))
                             (filter (\<lambda>(key, v). kept_key (JObj jkvs) key) jkvs))"
          by (simp add: entries_denote)
        ultimately show ?thesis using j by simp
      qed
      from 1 2 show ?thesis by blast
    qed
  qed
qed

lemma heap_value_truthy: "heap_value m h v = Some j \<Longrightarrow> htruthy v = truthy j"
  by (cases v; cases m) (auto split: if_splits hobj.splits)

lemma zip_denotes:
  assumes "list_all2 P xs ys"
  shows "list_all2 (\<lambda>p q. fst q = fst p \<and> P (snd p) (snd q)) (zip ks xs) (zip ks ys)"
  using assms
proof (induction xs ys arbitrary: ks rule: list_all2_induct)
  case Nil
  show ?case by simp
next
  case (Cons x xs y ys)
  then show ?case by (cases ks) auto
qed

lemma own_props_denote:
  assumes "heap_value (Suc m) h tool = Some j" and "distinct_keys j"
  shows "list_all2 (\<lambda>p q. fst q = fst p \<and> heap_value m h (snd p) = Some (snd q) \<and> distinct_keys (snd q))
           (own_props_h h tool) (own_props j)"
proof (cases tool)
  case (HRef t)
  with assms(1) have t: "t < length h" by (auto split: if_splits)
  show ?thesis
  proof (cases "h ! t")
    case (HArray xs)
    with assms(1) HRef t obtain js where j: "j = JArr js"
      and js: "list_all2 (\<lambda>x j. heap_value m h x = Some j) xs js"
      by (auto simp: those_map_Some_iff)
    from assms(2) j js have "list_all2 (\<lambda>x j. heap_value m h x = Some j \<and> distinct_keys j) xs js"
      by (auto simp: list_all2_conv_all_nth)
    from zip_denotes [OF this, of "map index_key [0 ..< length xs]"] js HRef t HArray j
    show ?thesis by (simp add: list_all2_lengthD)
  next
    case (HObject kvs)
    with assms(1) HRef t obtain jkvs where j: "j = JObj jkvs"
      and js: "list_all2 (\<lambda>p q. fst q = fst p \<and> heap_value m h (snd p) = Some (snd q)) kvs jkvs"
      by (auto simp: entries_denote)
    from assms(2) j js HRef t HObject show ?thesis
      by (auto simp: list_all2_conv_all_nth)
  qed
next
  case (HStr s)
  have "list_all2 (\<lambda>x j. heap_value m h x = Some j \<and> distinct_keys j)
          (map (\<lambda>c. HStr [c]) s) (map (\<lambda>c. JStr [c]) s)"
    by (induction s) auto
  from zip_denotes [OF this, of "map index_key [0 ..< length s]"] HStr assms(1)
  show ?thesis by auto
qed (use assms in auto)

lemma own_props_h_unchanged:
  "unchanged h0 h \<Longrightarrow> heap_value (Suc m) h0 tool = Some j \<Longrightarrow> own_props_h h tool = own_props_h h0 tool"
  by (cases tool) (auto simp: unchanged_def split: if_splits)

lemma set_prop_denotes:
  assumes "list_all2 (\<lambda>p q. fst q = fst p \<and> P (snd p) (snd q)) kvs jkvs" and "P v j"
  shows "list_all2 (\<lambda>p q. fst q = fst p \<and> P (snd p) (snd q)) (set_hprop kvs k v) (set_prop jkvs k j)"
  using assms(1)
proof (induction kvs jkvs rule: list_all2_induct)
  case Nil
  show ?case using assms(2) by simp
next
  case (Cons p kvs q jkvs)
  then show ?case using assms(2) by (cases p; cases q) auto
qed

lemma delete_prop_denotes:
  assumes "list_all2 (\<lambda>p q. fst q = fst p \<and> P (snd p) (snd q)) kvs jkvs"
  shows "list_all2 (\<lambda>p q. fst q = fst p \<and> P (snd p) (snd q))
           (filter (\<lambda>(k', v). k' \<noteq> k) kvs) (delete_prop jkvs k)"
  using assms unfolding delete_prop_def
proof (induction kvs jkvs rule: list_all2_induct)
  case Nil
  show ?case by simp
next
  case (Cons p kvs q jkvs)
  then show ?case by (cases p; cases q) auto
qed

lemma transform_tool_h_refines:
  assumes t: "heap_value (Suc m) h0 tool = Some j" and dj: "distinct_keys j" and u: "unchanged h0 h"
  shows "\<exists>h' r. transform_tool_h m h tool = Some (h', r) \<and> unchanged h h'
           \<and> (\<forall>h''. unchanged h0 h'' \<and> agrees (length h) h' h'' \<longrightarrow>
                 heap_value (Suc m) h'' r = Some (transform_tool j))"
proof -
  let ?props = "own_props_h h tool"
  let ?jprops = "own_props j"
  let ?nt = "length h"
  let ?h1 = "h @ [HObject ?props]"
  have props: "list_all2 (\<lambda>p q. fst q = fst p \<and> heap_value m h0 (snd p) = Some (snd q)
                            \<and> distinct_keys (snd q)) ?props ?jprops"
    using own_props_denote [OF t dj] own_props_h_unchanged [OF u t] by simp
  have props'': "list_all2 (\<lambda>p q. fst q = fst p \<and> heap_value m h'' (snd p) = Some (snd q)) ?props ?jprops"
    if "unchanged h0 h''" for h''
    using props heap_value_unchanged [OF that]
    by (auto simp: list_all2_conv_all_nth)
  let ?hv = "hread ?h1 ?nt (Name ''input_schema'')"
  let ?jv = "js_prop (JObj ?jprops) ''input_schema''"
  have hv: "?hv = (case map_of ?props ''input_schema'' of Some v \<Rightarrow> v | None \<Rightarrow> HUndefined)"
    by (simp add: hread_def)
  from lookup_denotes [OF props, of "''input_schema''"]
  have d: "heap_value m h0 ?hv = Some ?jv" unfolding hv .
  have tr: "htruthy ?hv = truthy ?jv" using heap_value_truthy [OF d] .
  have djv: "distinct_keys ?jv"
  proof (cases "map_of ?jprops ''input_schema''")
    case None
    then show ?thesis by simp
  next
    case (Some x)
    then have "(''input_schema'', x) \<in> set ?jprops" by (rule map_of_SomeD)
    then obtain i where "i < length ?jprops" "?jprops ! i = (''input_schema'', x)"
      by (auto simp: in_set_conv_nth)
    with props have "distinct_keys x" by (auto simp: list_all2_conv_all_nth)
    with Some show ?thesis by simp
  qed
  have u1: "unchanged h ?h1" by (rule unchanged_append)
  show ?thesis
  proof (cases "truthy ?jv")
    case False
    with tr have 1: "transform_tool_h m h tool = Some (?h1, HRef ?nt)"
      by (simp add: transform_tool_h_def Let_def)
    have 2: "heap_value (Suc m) h'' (HRef ?nt) = Some (transform_tool j)"
      if a: "unchanged h0 h'' \<and> agrees (length h) ?h1 h''" for h''
    proof -
      from a have "?nt < length h''" "h'' ! ?nt = HObject ?props" by (auto simp: agrees_def)
      moreover from props'' a
      have "those (map (\<lambda>(k, v). map_option (Pair k) (heap_value m h'' v)) ?props) = Some ?jprops"
        by (simp add: entries_denote)
      ultimately show ?thesis using False by (simp add: transform_tool_def Let_def)
    qed
    from 1 2 u1 show ?thesis by blast
  next
    case True
    from heap_value_unchanged [OF unchanged_trans [OF u u1] d]
    have "heap_value m ?h1 ?hv = Some ?jv" .
    from cleanParameters_h_refines [OF this djv] obtain h2 cleaned where
      c: "cleanParameters_h m ?h1 ?hv = Some (h2, cleaned)"
      and cl: "\<And>h''. agrees (length ?h1) h2 h'' \<Longrightarrow> heap_value m h'' cleaned = Some (cleanParameters ?jv)"
      by blast
    from clean_frame(1) c have u2: "unchanged ?h1 h2" by blast
    let ?h' = "hdelete (hwrite h2 ?nt (Name ''parameters'') cleaned) ?nt ''input_schema''"
    from u2 have h2nt: "?nt < length h2" "h2 ! ?nt = HObject ?props"
      by (auto simp: unchanged_def)
    then have h'nt: "?h' ! ?nt = HObject (filter (\<lambda>(k', v). k' \<noteq> ''input_schema'')
                                  (set_hprop ?props ''parameters'' cleaned))"
      and len: "length ?h' = length h2"
      and other: "\<And>a. a \<noteq> ?nt \<Longrightarrow> ?h' ! a = h2 ! a"
      by (simp_all add: hdelete_def hwrite_def)
    have 1: "transform_tool_h m h tool = Some (?h', HRef ?nt)"
      using True tr c by (simp add: transform_tool_h_def Let_def)
    have u': "unchanged h ?h'"
      using unchanged_trans [OF u1 u2] by (simp add: unchanged_hdelete unchanged_hwrite)
    have 2: "heap_value (Suc m) h'' (HRef ?nt) = Some (transform_tool j)"
      if a: "unchanged h0 h'' \<and> agrees (length h) ?h' h''" for h''
    proof -
      from a h2nt len have nt: "?nt < length h''" "h'' ! ?nt = ?h' ! ?nt" by (auto simp: agrees_def)
      from a len other have "agrees (length ?h1) h2 h''" by (auto simp: agrees_def)
      from cl [OF this] have "heap_value m h'' cleaned = Some (cleanParameters ?jv)" .
      with props'' a
      have "list_all2 (\<lambda>p q. fst q = fst p \<and> heap_value m h'' (snd p) = Some (snd q))
              (set_hprop ?props ''parameters'' cleaned)
              (set_prop ?jprops ''parameters'' (cleanParameters ?jv))"
        by (intro set_prop_denotes) simp_all
      then have "list_all2 (\<lambda>p q. fst q = fst p \<and> heap_value m h'' (snd p) = Some (snd q))
              (filter (\<lambda>(k', v). k' \<noteq> ''input_schema'') (set_hprop ?props ''parameters'' cleaned))
              (delete_prop (set_prop ?jprops ''parameters'' (cleanParameters ?jv)) ''input_schema'')"
        by (rule delete_prop_denotes)
      then have "those (map (\<lambda>(k, v). map_option (Pair k) (heap_value m h'' v))
                   (filter (\<lambda>(k', v). k' \<noteq> ''input_schema'') (set_hprop ?props ''parameters'' cleaned)))
                 = Some (delete_prop (set_prop ?jprops ''parameters'' (cleanParameters ?jv)) ''input_schema'')"
        by (simp add: entries_denote)
      with nt h'nt True show ?thesis by (simp add: transform_tool_def Let_def)
    qed
    from 1 2 u' show ?thesis by blast
  qed
qed

lemma transform_loop_refines:
  assumes a: "tools < length h0" "h0 ! tools = HArray ts" and c0: "length h0 \<le> res"
  shows "unchanged h0 h \<Longrightarrow> res < length h \<Longrightarrow> drop i ts = rest \<Longrightarrow>
         list_all2 (\<lambda>t j. heap_value (Suc m) h0 t = Some j \<and> distinct_keys j) rest jrest \<Longrightarrow>
         h ! res = HArray acc \<Longrightarrow> length acc = i \<Longrightarrow>
         (\<forall>h''. unchanged h0 h'' \<and> agrees (Suc res) h h'' \<longrightarrow>
            list_all2 (\<lambda>x j. heap_value (Suc m) h'' x = Some j) acc jacc) \<Longrightarrow>
         \<exists>h' acc'. transform_loop m h tools res [i ..< length ts] = Some h'
            \<and> unchanged h0 h' \<and> res < length h' \<and> h' ! res = HArray acc'
            \<and> (\<forall>h''. unchanged h0 h'' \<and> agrees (Suc res) h' h'' \<longrightarrow>
                  list_all2 (\<lambda>x j. heap_value (Suc m) h'' x = Some j) acc'
                    (jacc @ map transform_tool jrest))"
proof (induction rest arbitrary: i h acc jacc jrest)
  case Nil
  then have "length ts \<le> i" by simp
  then have "[i ..< length ts] = []" by simp
  moreover from Nil.prems(4) have "jrest = []" by simp
  ultimately show ?case using Nil.prems by auto
next
  case (Cons t rest)
  from Cons.prems(3) have i: "i < length ts"
    by (cases "i < length ts") auto
  from Cons.prems(3) Cons_nth_drop_Suc [OF i] have t: "ts ! i = t" and d: "drop (Suc i) ts = rest"
    by simp_all
  from Cons.prems(4) obtain j js where jrest: "jrest = j # js"
    and j: "heap_value (Suc m) h0 t = Some j" "distinct_keys j"
    and js: "list_all2 (\<lambda>t j. heap_value (Suc m) h0 t = Some j \<and> distinct_keys j) rest js"
    by (auto simp: list_all2_Cons1)
  from Cons.prems(1) a have "tools < length h" "h ! tools = HArray ts"
    by (auto simp: unchanged_def)
  then have r: "hread h tools (Index i) = t" using i t by (simp add: hread_def)
  from transform_tool_h_refines [OF j Cons.prems(1)] obtain h1 v1 where
    c1: "transform_tool_h m h t = Some (h1, v1)" and u1: "unchanged h h1"
    and v1: "\<And>h''. unchanged h0 h'' \<and> agrees (length h) h1 h'' \<Longrightarrow>
               heap_value (Suc m) h'' v1 = Some (transform_tool j)"
    by blast
  let ?h2 = "hwrite h1 res (Index i) v1"
  from u1 Cons.prems(2,5) have h1c: "h1 ! res = HArray acc" "res < length h1"
    by (auto simp: unchanged_def)
  with Cons.prems(6) have h2c: "?h2 ! res = HArray (acc @ [v1])" "res < length ?h2"
    by (simp_all add: hwrite_def)
  have u2: "unchanged h0 ?h2"
    using unchanged_trans [OF Cons.prems(1) u1] c0 by (rule unchanged_hwrite [rotated])
  have inv: "\<forall>h''. unchanged h0 h'' \<and> agrees (Suc res) ?h2 h'' \<longrightarrow>
               list_all2 (\<lambda>x j. heap_value (Suc m) h'' x = Some j) (acc @ [v1]) (jacc @ [transform_tool j])"
  proof (intro allI impI)
    fix h'' assume a: "unchanged h0 h'' \<and> agrees (Suc res) ?h2 h''"
    then have "agrees (Suc res) ?h2 h''" by simp
    from agrees_step [OF u1 Cons.prems(2) this] a Cons.prems(7) v1
    show "list_all2 (\<lambda>x j. heap_value (Suc m) h'' x = Some j) (acc @ [v1]) (jacc @ [transform_tool j])"
      by (auto intro!: list_all2_appendI)
  qed
  from Cons.IH [OF u2 h2c(2) d js h2c(1) _ inv] Cons.prems(6)
  obtain h' acc' where
    l: "transform_loop m ?h2 tools res [Suc i ..< length ts] = Some h'"
    and res: "unchanged h0 h'" "res < length h'" "h' ! res = HArray acc'"
      "\<forall>h''. unchanged h0 h'' \<and> agrees (Suc res) h' h'' \<longrightarrow>
          list_all2 (\<lambda>x j. heap_value (Suc m) h'' x = Some j) acc'
            ((jacc @ [transform_tool j]) @ map transform_tool js)"
    by auto
  have "transform_loop m h tools res [i ..< length ts] = Some h'"
    using i r c1 l by (simp add: upt_conv_Cons)
  with res jrest show ?case by auto
qed

lemma transformToolsForGemini_h_refines:
  assumes v: "heap_value (Suc (Suc m)) h (HRef tools) = Some (JArr jts)"
    and dj: "distinct_keys (JArr jts)"
  shows "\<exists>h' result. transformToolsForGemini_h m h tools = Some (h', result)
           \<and> heap_value (Suc (Suc m)) h' (HRef result) = Some (JArr (transformToolsForGemini jts))"
proof -
  from v have a: "tools < length h" by (auto split: if_splits)
  from v a obtain ts where ts: "h ! tools = HArray ts"
    and d: "list_all2 (\<lambda>t j. heap_value (Suc m) h t = Some j) ts jts"
    by (cases "h ! tools") (auto simp: those_map_Some_iff)
  from d dj have all: "list_all2 (\<lambda>t j. heap_value (Suc m) h t = Some j \<and> distinct_keys j) ts jts"
    by (auto simp: list_all2_conv_all_nth)
  let ?res = "length h"
  let ?h1 = "h @ [HArray []]"
  have "\<exists>h' acc'. transform_loop m ?h1 tools ?res [0 ..< length ts] = Some h'
            \<and> unchanged h h' \<and> ?res < length h' \<and> h' ! ?res = HArray acc'
            \<and> (\<forall>h''. unchanged h h'' \<and> agrees (Suc ?res) h' h'' \<longrightarrow>
                  list_all2 (\<lambda>x j. heap_value (Suc m) h'' x = Some j) acc'
                    ([] @ map transform_tool jts))"
    by (rule transform_loop_refines [where rest = ts and acc = "[]", OF a ts])
       (simp_all add: unchanged_append all)
  then obtain h' acc' where l: "transform_loop m ?h1 tools ?res [0 ..< length ts] = Some h'"
    and u: "unchanged h h'" and c: "?res < length h'" "h' ! ?res = HArray acc'"
    and r: "\<And>h''. unchanged h h'' \<and> agrees (Suc ?res) h' h'' \<Longrightarrow>
                  list_all2 (\<lambda>x j. heap_value (Suc m) h'' x = Some j) acc' (map transform_tool jts)"
    by auto
  have 1: "transformToolsForGemini_h m h tools = Some (h', ?res)"
    using a ts l by (simp add: transformToolsForGemini_h_def nth_append)
  from r [of h'] u have "those (map (heap_value (Suc m) h') acc') = Some (map transform_tool jts)"
    by (simp add: agrees_refl those_map_Some_iff)
  with c have 2: "heap_value (Suc (Suc m)) h' (HRef ?res) = Some (JArr (transformToolsForGemini jts))"
    by (simp add: transformToolsForGemini_def)
  from 1 2 show ?thesis by blast
qed

lemma example_store_run:
  "transformToolsForGemini_h (Suc (Suc (Suc 0))) example_store 4 = Some (example_store_after, 5)"
  by (simp add: transformToolsForGemini_h_def transform_tool_h_def example_store_def
     example_store_after_def hread_def hwrite_def hdelete_def skips_format_h_def Let_def)

lemma join_nl_closed_form:
  "join_nl ss = (case ss of [] \<Rightarrow> [] | s # ts \<Rightarrow> s @ concat (map (\<lambda>t. CHR 0x0A # t) ts))"
  by (induction ss rule: join_nl.induct) simp_all

lemma text_block_texts:
  "map (\<lambda>b. js_prop b ''text'') (filter text_block blocks) = map JStr (map text_of (filter text_block blocks))"
  by (induction blocks) (auto simp: text_block_def is_string_def split: jsval.splits)

subsection \<open>Claims\<close>

text \<open>
  C7. The stop-reason mapping is total: it sends \<^verbatim>\<open>STOP\<close> to \<^verbatim>\<open>end_turn\<close>,
  \<^verbatim>\<open>TOOL_USE\<close> to \<^verbatim>\<open>tool_use\<close>, \<^verbatim>\<open>MAX_TOKENS\<close> to \<^verbatim>\<open>max_tokens\<close>, and every other
  finish reason, the absent one (\<^verbatim>\<open>undefined\<close>) included, to \<^verbatim>\<open>end_turn\<close>. It returns a
  plain string for every input, so it has no failing branch.
\<close>

theorem mapFinishReason_total:
  "mapFinishReason (JStr ''STOP'') = ''end_turn''
   \<and> mapFinishReason (JStr ''TOOL_USE'') = ''tool_use''
   \<and> mapFinishReason (JStr ''MAX_TOKENS'') = ''max_tokens''
   \<and> mapFinishReason JUndefined = ''end_turn''
   \<and> (r \<notin> {JStr ''STOP'', JStr ''TOOL_USE'', JStr ''MAX_TOKENS''} \<longrightarrow> mapFinishReason r = ''end_turn'')
   \<and> mapFinishReason r \<in> {''end_turn'', ''tool_use'', ''max_tokens''}"
  by (simp add: mapFinishReason_def)

theorem mapFinishReason_total_witness:
  "JStr ''SAFETY'' \<notin> {JStr ''STOP'', JStr ''TOOL_USE'', JStr ''MAX_TOKENS''}
   \<and> mapFinishReason (JStr ''SAFETY'') = ''end_turn''
   \<and> mapFinishReason (JNum 7) = ''end_turn''"
  using mapFinishReason_total [of "JStr ''SAFETY''"] mapFinishReason_total [of "JNum 7"]
  by simp

text \<open>
  C3. Streaming fragment fidelity. In every run that returns a message, the \<^verbatim>\<open>onText\<close>
  invocations of the trace are, when the callback is supplied, exactly the non-empty
  fragments of the provider's stream, one invocation per fragment, in arrival order and
  unchanged (so there are as many invocations as non-empty fragments), and none when it is
  absent; the text from which the final message is built is the concatenation of those
  fragments. The loop itself makes these invocations and returns that text whenever the
  callback does not throw on a fragment.
\<close>

theorem streaming_fragment_fidelity:
  "(streamConversation P prompts gen msgs pt tools h = (evs, Inr msg) \<longrightarrow>
      (\<exists>req result cand calls.
          gen req = Inr result \<and> hd evs = Generate req
        \<and> filter is_OnText evs =
            (case onText h of None \<Rightarrow> []
             | Some f \<Rightarrow> map OnText (filter (\<lambda>c. c \<noteq> []) (stream result)))
        \<and> length (filter is_OnText evs) =
            (case onText h of None \<Rightarrow> 0
             | Some f \<Rightarrow> length (filter (\<lambda>c. c \<noteq> []) (stream result)))
        \<and> msg = finalMessage calls (concat (filter (\<lambda>c. c \<noteq> []) (stream result))) cand))
   \<and> ((\<forall>f c. onText h = Some f \<longrightarrow> c \<in> set chunks \<longrightarrow> c \<noteq> [] \<longrightarrow> f c = None) \<longrightarrow>
        consume_stream h chunks [] =
          (case onText h of None \<Rightarrow> []
           | Some f \<Rightarrow> map OnText (filter (\<lambda>c. c \<noteq> []) chunks),
           Inr (concat (filter (\<lambda>c. c \<noteq> []) chunks))))"
proof (intro conjI impI)
  assume "streamConversation P prompts gen msgs pt tools h = (evs, Inr msg)"
  from streamConversation_result [OF this] obtain req result agg cand calls where
    g: "gen req = Inr result"
    and m: "msg = finalMessage calls (concat (filter (\<lambda>c. c \<noteq> []) (stream result))) cand"
    and e: "evs = Generate req # text_events h (stream result) @ tool_events h calls @ message_events h msg"
    by blast
  from e have f: "filter is_OnText evs = text_events h (stream result)"
    by (simp add: filter_is_OnText_text_events filter_is_OnText_tool_events
                  filter_is_OnText_message_events)
  have "hd evs = Generate req" using e by simp
  moreover have "filter is_OnText evs =
            (case onText h of None \<Rightarrow> []
             | Some f \<Rightarrow> map OnText (filter (\<lambda>c. c \<noteq> []) (stream result)))"
    using f by (simp add: text_events_def)
  moreover have "length (filter is_OnText evs) =
            (case onText h of None \<Rightarrow> 0
             | Some f \<Rightarrow> length (filter (\<lambda>c. c \<noteq> []) (stream result)))"
    using f by (simp add: text_events_def split: option.splits)
  ultimately show "\<exists>req result cand calls.
          gen req = Inr result \<and> hd evs = Generate req
        \<and> filter is_OnText evs =
            (case onText h of None \<Rightarrow> []
             | Some f \<Rightarrow> map OnText (filter (\<lambda>c. c \<noteq> []) (stream result)))
        \<and> length (filter is_OnText evs) =
            (case onText h of None \<Rightarrow> 0
             | Some f \<Rightarrow> length (filter (\<lambda>c. c \<noteq> []) (stream result)))
        \<and> msg = finalMessage calls (concat (filter (\<lambda>c. c \<noteq> []) (stream result))) cand"
    using g m by blast
next
  assume "\<forall>f c. onText h = Some f \<longrightarrow> c \<in> set chunks \<longrightarrow> c \<noteq> [] \<longrightarrow> f c = None"
  then show "consume_stream h chunks [] =
          (case onText h of None \<Rightarrow> []
           | Some f \<Rightarrow> map OnText (filter (\<lambda>c. c \<noteq> []) chunks),
           Inr (concat (filter (\<lambda>c. c \<noteq> []) chunks)))"
    using consume_stream_returns [of h chunks "[]"] by simp
qed

theorem streaming_fragment_fidelity_witness:
  "streamConversation example_parse example_prompts hello_provider [user_hi] None JUndefined
       quiet_handlers =
     ([Generate hi_request, OnText ''Hel'', OnText ''lo!'', OnMessage hello_message],
      Inr hello_message)
   \<and> filter is_OnText [Generate hi_request, OnText ''Hel'', OnText ''lo!'', OnMessage hello_message]
       = [OnText ''Hel'', OnText ''lo!'']
   \<and> consume_stream quiet_handlers [''Hel'', [], ''lo!''] [] =
       ([OnText ''Hel'', OnText ''lo!''], Inr ''Hello!'')"
proof -
  note fid = streaming_fragment_fidelity
    [of example_parse example_prompts hello_provider "[user_hi]" None JUndefined quiet_handlers
        "[Generate hi_request, OnText ''Hel'', OnText ''lo!'', OnMessage hello_message]"
        hello_message "[''Hel'', [], ''lo!'']"]
  have "consume_stream quiet_handlers [''Hel'', [], ''lo!''] [] =
       ([OnText ''Hel'', OnText ''lo!''], Inr ''Hello!'')"
    using fid [THEN conjunct2] by (simp add: quiet_handlers_def)
  moreover
  from fid [THEN conjunct1] hello_run obtain req result where
    "hello_provider req = Inr result"
    "filter is_OnText [Generate hi_request, OnText ''Hel'', OnText ''lo!'', OnMessage hello_message] =
       (case onText quiet_handlers of None \<Rightarrow> []
        | Some f \<Rightarrow> map OnText (filter (\<lambda>c. c \<noteq> []) (stream result)))"
    by blast
  then have "filter is_OnText [Generate hi_request, OnText ''Hel'', OnText ''lo!'', OnMessage hello_message]
       = [OnText ''Hel'', OnText ''lo!'']"
    by (simp add: hello_provider_def hello_generation_def quiet_handlers_def)
  ultimately show ?thesis using hello_run by simp
qed

text \<open>
  C2. Tool-call exclusivity and identifier construction. In every run that returns a
  message, the run starts with the one call of the provider, on the translated history, and
  with \<open>calls\<close> the \<^verbatim>\<open>functionCall\<close> values of the parts of the first candidate of the
  response to that call that carry one, in the provider's order: if there is at least one, the content of
  the message is exactly one \<^verbatim>\<open>tool_use\<close> block per call, in that order, with \<^verbatim>\<open>id\<close>
  and \<^verbatim>\<open>name\<close> both the call's name and \<^verbatim>\<open>input\<close> the call's arguments, and no
  block is a text block whatever was streamed; if there is none, the content is the single
  text block with the whole streamed text.
\<close>

theorem tool_call_exclusivity:
  assumes "streamConversation P prompts gen msgs pt tools h = (evs, Inr msg)"
  shows "\<exists>req result agg cand calls.
           hd evs = Generate req \<and> formatHistoryForGemini P msgs = Inr (req_contents req)
         \<and> gen req = Inr result \<and> response result = Inr agg
         \<and> response_candidate agg = Inr cand \<and> geminiToolCalls cand = Inr calls
         \<and> ((nullish (js_prop cand ''content'') \<and> calls = [])
            \<or> (\<exists>parts. js_prop (js_prop cand ''content'') ''parts'' = JArr parts
                 \<and> calls = map (\<lambda>p. js_prop p ''functionCall'')
                             (filter (\<lambda>p. truthy (js_prop p ''functionCall'')) parts)))
         \<and> (calls \<noteq> [] \<longrightarrow>
              js_prop msg ''content'' =
                JArr (map (\<lambda>c. JObj [(''type'', JStr ''tool_use''), (''id'', js_prop c ''name''),
                                      (''name'', js_prop c ''name''), (''input'', js_prop c ''args'')])
                        calls)
              \<and> (\<forall>bs. js_prop msg ''content'' = JArr bs \<longrightarrow>
                     length bs = length calls
                   \<and> (\<forall>b \<in> set bs. js_prop b ''type'' = JStr ''tool_use''
                                    \<and> js_prop b ''type'' \<noteq> JStr ''text'')))
         \<and> (calls = [] \<longrightarrow>
              js_prop msg ''content'' =
                JArr [JObj [(''type'', JStr ''text''), (''text'', JStr (concat (stream result)))]])"
proof -
  from streamConversation_result [OF assms] obtain req result agg cand calls where
    g: "gen req = Inr result" and a: "response result = Inr agg"
    and c: "response_candidate agg = Inr cand" and t: "geminiToolCalls cand = Inr calls"
    and m: "msg = finalMessage calls (concat (filter (\<lambda>c. c \<noteq> []) (stream result))) cand"
    and f: "formatHistoryForGemini P msgs = Inr (req_contents req)"
    and v: "evs = Generate req # text_events h (stream result) @ tool_events h calls @ message_events h msg"
    by blast
  from v have hd: "hd evs = Generate req" by simp
  have cc: "concat (filter (\<lambda>c. c \<noteq> []) xs) = concat xs" for xs :: "string list"
    by (induction xs) auto
  have p: "(nullish (js_prop cand ''content'') \<and> calls = [])
            \<or> (\<exists>parts. js_prop (js_prop cand ''content'') ''parts'' = JArr parts
                 \<and> calls = map (\<lambda>p. js_prop p ''functionCall'')
                             (filter (\<lambda>p. truthy (js_prop p ''functionCall'')) parts))"
    using geminiToolCalls_result [OF t] by blast
  have e: "calls = [] \<longrightarrow>
              js_prop msg ''content'' =
                JArr [JObj [(''type'', JStr ''text''), (''text'', JStr (concat (stream result)))]]"
    by (simp add: m finalMessage_def cc)
  have n: "calls \<noteq> [] \<longrightarrow>
              js_prop msg ''content'' =
                JArr (map (\<lambda>c. JObj [(''type'', JStr ''tool_use''), (''id'', js_prop c ''name''),
                                      (''name'', js_prop c ''name''), (''input'', js_prop c ''args'')])
                        calls)
              \<and> (\<forall>bs. js_prop msg ''content'' = JArr bs \<longrightarrow>
                     length bs = length calls
                   \<and> (\<forall>b \<in> set bs. js_prop b ''type'' = JStr ''tool_use''
                                    \<and> js_prop b ''type'' \<noteq> JStr ''text''))"
    by (auto simp: m finalMessage_def tool_use_block_def)
  from hd f g a c t p e n show ?thesis by blast
qed

theorem tool_call_exclusivity_witness:
  "streamConversation example_parse example_prompts search_provider [user_hi] None JUndefined
       quiet_handlers =
     ([Generate hi_request, OnText ''Looking'', OnToolUse search_block, OnMessage search_message],
      Inr search_message)
   \<and> js_prop search_message ''content'' = JArr [search_block]
   \<and> js_prop hello_message ''content'' =
       JArr [JObj [(''type'', JStr ''text''), (''text'', JStr ''Hello!'')]]"
proof -
  from tool_call_exclusivity [OF hello_run] obtain req' result' agg' cand' calls' where
    g': "hello_provider req' = Inr result'" and a': "response result' = Inr agg'"
    and c': "response_candidate agg' = Inr cand'" and t': "geminiToolCalls cand' = Inr calls'"
    and e': "calls' = [] \<longrightarrow>
              js_prop hello_message ''content'' =
                JArr [JObj [(''type'', JStr ''text''), (''text'', JStr (concat (stream result')))]]"
    by blast
  from g' have r': "result' = hello_generation" by (simp add: hello_provider_def)
  with a' have "agg' = hello_response" by (simp add: hello_generation_def)
  with c' have "cand' = JObj [(''content'', JObj [(''parts'', JArr [JObj [(''text'', JStr ''Hello!'')]])]),
                        (''finishReason'', JStr ''STOP'')]"
    by (simp add: hello_response_def response_candidate_def js_get_def)
  with t' have "calls' = []"
    by (simp add: geminiToolCalls_def js_get_def)
  with e' r' have hello: "js_prop hello_message ''content'' =
       JArr [JObj [(''type'', JStr ''text''), (''text'', JStr ''Hello!'')]]"
    by (simp add: hello_generation_def)
  from tool_call_exclusivity [OF search_run] obtain req result agg cand calls where
    g: "search_provider req = Inr result" and a: "response result = Inr agg"
    and c: "response_candidate agg = Inr cand" and t: "geminiToolCalls cand = Inr calls"
    and n: "calls \<noteq> [] \<longrightarrow>
              js_prop search_message ''content'' =
                JArr (map (\<lambda>c. JObj [(''type'', JStr ''tool_use''), (''id'', js_prop c ''name''),
                                      (''name'', js_prop c ''name''), (''input'', js_prop c ''args'')])
                        calls)
              \<and> (\<forall>bs. js_prop search_message ''content'' = JArr bs \<longrightarrow>
                     length bs = length calls
                   \<and> (\<forall>b \<in> set bs. js_prop b ''type'' = JStr ''tool_use''
                                    \<and> js_prop b ''type'' \<noteq> JStr ''text''))"
    by blast
  from g have "result = search_generation" by (simp add: search_provider_def)
  with a have "agg = search_response" by (simp add: search_generation_def)
  with c have "cand = JObj [(''content'',
                         JObj [(''parts'',
                                JArr [JObj [(''text'', JStr ''Looking'')],
                                      JObj [(''functionCall'',
                                             JObj [(''name'', JStr ''search''),
                                                   (''args'', JObj [(''q'', JStr ''tea'')])])]])]),
                        (''finishReason'', JStr ''STOP'')]"
    by (simp add: search_response_def response_candidate_def js_get_def)
  with t have "calls = [JObj [(''name'', JStr ''search''), (''args'', JObj [(''q'', JStr ''tea'')])]]"
    by (simp add: geminiToolCalls_def js_get_def)
  with n have "js_prop search_message ''content'' = JArr [search_block]"
    by (simp add: search_block_def)
  with search_run hello show ?thesis by simp
qed




text \<open>
  C8. Unknown-role filtering. For every history of turns (values other than \<^verbatim>\<open>null\<close> and
  \<^verbatim>\<open>undefined\<close>), the translator does what it would do on the history with the turns of
  unknown role removed: when it returns, the output has exactly one entry per turn of role
  \<^verbatim>\<open>user\<close>, \<^verbatim>\<open>assistant\<close> or \<^verbatim>\<open>tool\<close>, in input order, each the translation of its
  turn and none of them \<^verbatim>\<open>null\<close>; a turn of any other role maps to \<^verbatim>\<open>null\<close> without an
  error and is dropped; and the translation returns whenever every turn of known role
  translates.
\<close>

theorem unknown_role_filtering:
  assumes "\<forall>m \<in> set msgs. \<not> nullish m"
  shows "formatHistoryForGemini P msgs = mapE (format_message P) (filter known_role msgs)
       \<and> (\<forall>out. formatHistoryForGemini P msgs = Inr out \<longrightarrow>
             length out = length (filter known_role msgs)
           \<and> (\<forall>i < length out. format_message P (filter known_role msgs ! i) = Inr (out ! i)
                                \<and> out ! i \<noteq> JNull \<and> out ! i \<noteq> JUndefined))
       \<and> (\<forall>m \<in> set msgs. \<not> known_role m \<longrightarrow> format_message P m = Inr JNull)
       \<and> ((\<forall>m \<in> set msgs. known_role m \<longrightarrow> (\<exists>t. format_message P m = Inr t)) \<longrightarrow>
            (\<exists>out. formatHistoryForGemini P msgs = Inr out))"
proof (intro conjI allI impI ballI)
  show eq: "formatHistoryForGemini P msgs = mapE (format_message P) (filter known_role msgs)"
    using mapE_known_only [OF assms] by (simp add: formatHistoryForGemini_def)
  {
    fix out assume "formatHistoryForGemini P msgs = Inr out"
    with eq have m: "mapE (format_message P) (filter known_role msgs) = Inr out" by simp
    from mapE_result [OF m] show "length out = length (filter known_role msgs)" by simp
    fix i assume i: "i < length out"
    with mapE_result [OF m]
    show f: "format_message P (filter known_role msgs ! i) = Inr (out ! i)" by simp
    have "filter known_role msgs ! i \<in> set (filter known_role msgs)"
      using i mapE_result [OF m] by (intro nth_mem) simp
    then have "known_role (filter known_role msgs ! i)" by simp
    with f have "truthy (out ! i)" by (rule format_message_known)
    then show "out ! i \<noteq> JNull" "out ! i \<noteq> JUndefined" by auto
  }
  {
    fix m assume "m \<in> set msgs" "\<not> known_role m"
    with assms show "format_message P m = Inr JNull" by (auto intro: format_message_unknown)
  }
  {
    assume "\<forall>m \<in> set msgs. known_role m \<longrightarrow> (\<exists>t. format_message P m = Inr t)"
    then have "\<And>x. x \<in> set (filter known_role msgs) \<Longrightarrow>
                 format_message P x = Inr (projr (format_message P x))"
      by auto
    from mapE_returns [of "filter known_role msgs" "format_message P", OF this] eq
    show "\<exists>out. formatHistoryForGemini P msgs = Inr out" by simp
  }
qed

theorem unknown_role_filtering_witness:
  "\<not> nullish user_hi \<and> \<not> nullish system_turn \<and> \<not> nullish assistant_ab
   \<and> known_role user_hi \<and> \<not> known_role system_turn \<and> known_role assistant_ab
   \<and> formatHistoryForGemini example_parse [user_hi, system_turn, assistant_ab] =
       Inr [text_turn ''user'' ''hi'', text_turn ''model'' (''a'' @ [CHR 0x0A] @ ''b'')]"
proof -
  have nn: "\<forall>m \<in> set [user_hi, system_turn, assistant_ab]. \<not> nullish m"
    by (simp add: example_turns)
  have k: "known_role user_hi \<and> \<not> known_role system_turn \<and> known_role assistant_ab"
    by (simp add: known_role_def example_turns)
  then have "filter known_role [user_hi, system_turn, assistant_ab] = [user_hi, assistant_ab]"
    by simp
  moreover have "mapE (format_message example_parse) [user_hi, assistant_ab] =
       Inr [text_turn ''user'' ''hi'', text_turn ''model'' (''a'' @ [CHR 0x0A] @ ''b'')]"
    by (simp add: format_message_def example_turns js_get_def is_array_def is_string_def
          is_text_block_def js_get_opt_def)
  ultimately show ?thesis
    using unknown_role_filtering [OF nn, of example_parse] nn k by simp
qed

text \<open>
  C4. Assistant text concatenation. An assistant turn without tool calls whose content is
  a list of blocks translates to a turn of role \<^verbatim>\<open>model\<close> with exactly one text fragment.
  With \<open>texts\<close> the strings carried by the blocks tagged \<^verbatim>\<open>text\<close> that carry a string, in
  the order of the blocks, the fragment is the first of them followed by each further one
  with a newline before it (the empty string when there is none). The other blocks are
  skipped and raise nothing. When every block tagged \<^verbatim>\<open>text\<close> carries a string, as the
  data model has it, \<open>texts\<close> are the texts of all blocks tagged \<^verbatim>\<open>text\<close>.
\<close>

theorem assistant_text_concatenation:
  assumes "js_prop msg ''role'' = JStr ''assistant''"
    and "\<not> truthy (js_prop msg ''tool_calls'') \<or> js_prop msg ''tool_calls'' = JArr []"
    and "js_prop msg ''content'' = JArr blocks"
    and "\<forall>b \<in> set blocks. \<not> nullish b"
  shows "\<exists>texts.
           map (\<lambda>b. js_prop b ''text'')
             (filter (\<lambda>b. js_prop b ''type'' = JStr ''text'' \<and> (\<exists>s. js_prop b ''text'' = JStr s)) blocks)
           = map JStr texts
         \<and> format_message P msg =
             Inr (JObj [(''role'', JStr ''model''),
                        (''parts'', JArr [JObj [(''text'',
                            JStr (case texts of
                                    [] \<Rightarrow> []
                                  | s # ts \<Rightarrow> s @ concat (map (\<lambda>t. CHR 0x0A # t) ts)))]])])
         \<and> ((\<forall>b \<in> set blocks. js_prop b ''type'' = JStr ''text'' \<longrightarrow> (\<exists>s. js_prop b ''text'' = JStr s)) \<longrightarrow>
              map (\<lambda>b. js_prop b ''text'') (filter (\<lambda>b. js_prop b ''type'' = JStr ''text'') blocks)
              = map JStr texts)"
proof -
  let ?texts = "map text_of (filter text_block blocks)"
  have nn: "\<not> nullish msg" using assms(1) by (cases msg) auto
  have tc: "(if truthy (js_prop msg ''tool_calls'')
             then js_gt0 P (js_prop (js_prop msg ''tool_calls'') ''length'') else Inr False) = Inr False"
    using assms(2) by auto
  have tb: "text_block = (\<lambda>b. js_prop b ''type'' = JStr ''text'' \<and> (\<exists>s. js_prop b ''text'' = JStr s))"
    by (auto simp: text_block_def is_string_def fun_eq_iff split: jsval.splits)
  have 1: "format_message P msg = Inr (text_turn ''model'' (join_nl ?texts))"
    using nn assms(1,3) textContent_blocks [OF assms(4)]
    by (simp add: format_message_def js_get_def Let_def tc del: textContent.simps)
  have 2: "map (\<lambda>b. js_prop b ''text'')
             (filter (\<lambda>b. js_prop b ''type'' = JStr ''text'' \<and> (\<exists>s. js_prop b ''text'' = JStr s)) blocks)
           = map JStr ?texts"
    using text_block_texts [of blocks] unfolding tb .
  have 3: "filter (\<lambda>b. js_prop b ''type'' = JStr ''text'') blocks
           = filter (\<lambda>b. js_prop b ''type'' = JStr ''text'' \<and> (\<exists>s. js_prop b ''text'' = JStr s)) blocks"
    if "\<forall>b \<in> set blocks. js_prop b ''type'' = JStr ''text'' \<longrightarrow> (\<exists>s. js_prop b ''text'' = JStr s)"
    using that by (intro filter_cong) auto
  have 4: "format_message P msg =
             Inr (JObj [(''role'', JStr ''model''),
                        (''parts'', JArr [JObj [(''text'',
                            JStr (case ?texts of
                                    [] \<Rightarrow> []
                                  | s # ts \<Rightarrow> s @ concat (map (\<lambda>t. CHR 0x0A # t) ts)))]])])"
    unfolding 1 text_turn_def join_nl_closed_form [of ?texts] ..
  from 2 3 4 show ?thesis
    by (intro exI [of _ ?texts]) simp
qed

theorem assistant_text_concatenation_witness:
  "js_prop assistant_ab ''role'' = JStr ''assistant''
   \<and> js_prop assistant_ab ''tool_calls'' = JUndefined
   \<and> js_prop assistant_ab ''content'' = JArr [text_a, result_block, text_b]
   \<and> format_message example_parse assistant_ab =
       Inr (JObj [(''role'', JStr ''model''),
                  (''parts'', JArr [JObj [(''text'', JStr (''a'' @ [CHR 0x0A] @ ''b''))]])])
   \<and> js_prop assistant_three ''role'' = JStr ''assistant''
   \<and> js_prop assistant_three ''tool_calls'' = JUndefined
   \<and> format_message example_parse assistant_three =
       Inr (JObj [(''role'', JStr ''model''),
                  (''parts'', JArr [JObj [(''text'',
                      JStr (''Hello,'' @ [CHR 0x0A] @ ''dear'' @ [CHR 0x0A] @ ''world!''))]])])"
proof -
  have r: "js_prop assistant_ab ''role'' = JStr ''assistant''"
    and t: "js_prop assistant_ab ''tool_calls'' = JUndefined"
    and c: "js_prop assistant_ab ''content'' = JArr [text_a, result_block, text_b]"
    by (simp_all add: assistant_ab_def)
  have t': "\<not> truthy (js_prop assistant_ab ''tool_calls'')
            \<or> js_prop assistant_ab ''tool_calls'' = JArr []"
    using t by simp
  have nn: "\<forall>b \<in> set [text_a, result_block, text_b]. \<not> nullish b"
    by (simp add: example_turns)
  from assistant_text_concatenation [OF r t' c nn, of example_parse] obtain texts where
    "map (\<lambda>b. js_prop b ''text'')
       (filter (\<lambda>b. js_prop b ''type'' = JStr ''text'' \<and> (\<exists>s. js_prop b ''text'' = JStr s))
          [text_a, result_block, text_b]) = map JStr texts"
    and f: "format_message example_parse assistant_ab =
             Inr (JObj [(''role'', JStr ''model''),
                        (''parts'', JArr [JObj [(''text'',
                            JStr (case texts of
                                    [] \<Rightarrow> []
                                  | s # ts \<Rightarrow> s @ concat (map (\<lambda>t. CHR 0x0A # t) ts)))]])])"
    by blast
  then have "map JStr texts = [JStr ''a'', JStr ''b'']"
    by (simp add: example_turns)
  then have "texts = [''a'', ''b'']"
    by (auto simp: map_eq_Cons_conv)
  with f have 1: "format_message example_parse assistant_ab =
       Inr (JObj [(''role'', JStr ''model''),
                  (''parts'', JArr [JObj [(''text'', JStr (''a'' @ [CHR 0x0A] @ ''b''))]])])"
    by simp
  let ?blocks = "[JObj [(''type'', JStr ''text''), (''text'', JStr ''Hello,'')],
                  JObj [(''type'', JStr ''tool_result''), (''tool_use_id'', JStr ''search'')],
                  JObj [(''type'', JStr ''text''), (''text'', JStr ''dear'')],
                  JObj [(''type'', JStr ''image'')],
                  JObj [(''type'', JStr ''text''), (''text'', JStr ''world!'')]]"
  have r3: "js_prop assistant_three ''role'' = JStr ''assistant''"
    and t3: "js_prop assistant_three ''tool_calls'' = JUndefined"
    and c3: "js_prop assistant_three ''content'' = JArr ?blocks"
    by (simp_all add: assistant_three_def)
  have t3': "\<not> truthy (js_prop assistant_three ''tool_calls'')
            \<or> js_prop assistant_three ''tool_calls'' = JArr []"
    using t3 by simp
  have nn3: "\<forall>b \<in> set ?blocks. \<not> nullish b" by simp
  from assistant_text_concatenation [OF r3 t3' c3 nn3, of example_parse] obtain texts3 where
    "map (\<lambda>b. js_prop b ''text'')
       (filter (\<lambda>b. js_prop b ''type'' = JStr ''text'' \<and> (\<exists>s. js_prop b ''text'' = JStr s)) ?blocks)
     = map JStr texts3"
    and f3: "format_message example_parse assistant_three =
             Inr (JObj [(''role'', JStr ''model''),
                        (''parts'', JArr [JObj [(''text'',
                            JStr (case texts3 of
                                    [] \<Rightarrow> []
                                  | s # ts \<Rightarrow> s @ concat (map (\<lambda>t. CHR 0x0A # t) ts)))]])])"
    by blast
  then have "map JStr texts3 = [JStr ''Hello,'', JStr ''dear'', JStr ''world!'']"
    by simp
  then have "texts3 = [''Hello,'', ''dear'', ''world!'']"
    by (auto simp: map_eq_Cons_conv)
  with f3 have 3: "format_message example_parse assistant_three =
       Inr (JObj [(''role'', JStr ''model''),
                  (''parts'', JArr [JObj [(''text'',
                      JStr (''Hello,'' @ [CHR 0x0A] @ ''dear'' @ [CHR 0x0A] @ ''world!''))]])])"
    by simp
  from r t c 1 r3 t3 3 show ?thesis by simp
qed

text \<open>
  C10. Only the first tool_result block of a user turn is translated. For a user turn whose
  first block is tagged \<^verbatim>\<open>tool_result\<close>, the result is determined by that block alone:
  one function-response fragment named by the block's \<^verbatim>\<open>tool_use_id\<close>, whose payload is
  \<^verbatim>\<open>JSON.parse\<close> of the text of the first element of the block's own content list (or
  the error of reading or parsing it); the blocks after the first do not occur in it.
  A user turn whose first block is not tagged \<^verbatim>\<open>tool_result\<close> is translated as plain
  text, also when a \<^verbatim>\<open>tool_result\<close> block follows.
\<close>

theorem first_tool_result_only:
  "(js_prop msg ''role'' = JStr ''user'' \<and> js_prop msg ''content'' = JArr (b # rest)
      \<and> js_prop b ''type'' = JStr ''tool_result'' \<longrightarrow>
        format_message P msg =
          bindE (js_index0 (js_prop b ''content'')) (\<lambda>c0.
          bindE (js_get c0 ''text'') (\<lambda>t.
          bindE (JSON_parse P t) (\<lambda>response.
            Inr (JObj [(''role'', JStr ''function''),
                       (''parts'', JArr [JObj [(''functionResponse'',
                           JObj [(''name'', js_prop b ''tool_use_id''),
                                 (''response'', response)])]])]))))
      \<and> (\<forall>c0 cs response.
            js_prop b ''content'' = JArr (c0 # cs) \<and> \<not> nullish c0
            \<and> JSON_parse P (js_prop c0 ''text'') = Inr response \<longrightarrow>
            format_message P msg =
              Inr (JObj [(''role'', JStr ''function''),
                         (''parts'', JArr [JObj [(''functionResponse'',
                             JObj [(''name'', js_prop b ''tool_use_id''),
                                   (''response'', response)])]])])))
   \<and> (js_prop msg ''role'' = JStr ''user'' \<and> js_prop msg ''content'' = JArr (b # rest)
      \<and> js_prop b ''type'' \<noteq> JStr ''tool_result'' \<and> \<not> nullish b \<and> (\<forall>x \<in> set rest. \<not> nullish x) \<longrightarrow>
        format_message P msg =
          Inr (JObj [(''role'', JStr ''user''),
                     (''parts'', JArr [JObj [(''text'',
                         JStr (join_nl (map text_of (filter text_block (b # rest)))))]])]))"
proof (rule conjI; rule impI)
  assume a: "js_prop msg ''role'' = JStr ''user'' \<and> js_prop msg ''content'' = JArr (b # rest)
      \<and> js_prop b ''type'' = JStr ''tool_result''"
  then have nn: "\<not> nullish msg" and nb: "\<not> nullish b" by (cases msg; cases b; auto)+
  from a nn nb have eq: "format_message P msg =
          bindE (js_index0 (js_prop b ''content'')) (\<lambda>c0.
          bindE (js_get c0 ''text'') (\<lambda>t.
          bindE (JSON_parse P t) (\<lambda>response.
            Inr (JObj [(''role'', JStr ''function''),
                       (''parts'', JArr [JObj [(''functionResponse'',
                           JObj [(''name'', js_prop b ''tool_use_id''),
                                 (''response'', response)])]])]))))"
    by (simp add: format_message_def js_get_def js_get_opt_def is_array_def Let_def
          function_turn_def)
  show "format_message P msg =
          bindE (js_index0 (js_prop b ''content'')) (\<lambda>c0.
          bindE (js_get c0 ''text'') (\<lambda>t.
          bindE (JSON_parse P t) (\<lambda>response.
            Inr (JObj [(''role'', JStr ''function''),
                       (''parts'', JArr [JObj [(''functionResponse'',
                           JObj [(''name'', js_prop b ''tool_use_id''),
                                 (''response'', response)])]])]))))
      \<and> (\<forall>c0 cs response.
            js_prop b ''content'' = JArr (c0 # cs) \<and> \<not> nullish c0
            \<and> JSON_parse P (js_prop c0 ''text'') = Inr response \<longrightarrow>
            format_message P msg =
              Inr (JObj [(''role'', JStr ''function''),
                         (''parts'', JArr [JObj [(''functionResponse'',
                             JObj [(''name'', js_prop b ''tool_use_id''),
                                   (''response'', response)])]])]))"
    unfolding eq by (simp add: js_index0_def js_get_def)
next
  assume a: "js_prop msg ''role'' = JStr ''user'' \<and> js_prop msg ''content'' = JArr (b # rest)
      \<and> js_prop b ''type'' \<noteq> JStr ''tool_result'' \<and> \<not> nullish b \<and> (\<forall>x \<in> set rest. \<not> nullish x)"
  then have nn: "\<not> nullish msg" by (cases msg) auto
  from a have "\<forall>x \<in> set (b # rest). \<not> nullish x" by simp
  from textContent_blocks [OF this] a nn
  show "format_message P msg =
          Inr (JObj [(''role'', JStr ''user''),
                     (''parts'', JArr [JObj [(''text'',
                         JStr (join_nl (map text_of (filter text_block (b # rest)))))]])])"
    by (simp add: format_message_def js_get_def js_get_opt_def is_array_def Let_def text_turn_def
             del: textContent.simps)
qed

theorem first_tool_result_only_witness:
  "js_prop user_result ''role'' = JStr ''user''
   \<and> js_prop user_result ''content'' = JArr [result_block, text_a]
   \<and> js_prop result_block ''type'' = JStr ''tool_result''
   \<and> format_message example_parse user_result =
       Inr (JObj [(''role'', JStr ''function''),
                  (''parts'', JArr [JObj [(''functionResponse'',
                      JObj [(''name'', JStr ''call_1''), (''response'', JObj [])])]])])
   \<and> js_prop user_text_first ''role'' = JStr ''user''
   \<and> js_prop user_text_first ''content'' = JArr [text_a, result_block]
   \<and> js_prop text_a ''type'' \<noteq> JStr ''tool_result''
   \<and> format_message example_parse user_text_first =
       Inr (JObj [(''role'', JStr ''user''), (''parts'', JArr [JObj [(''text'', JStr ''a'')]])])"
proof -
  have 1: "js_prop user_result ''role'' = JStr ''user''
     \<and> js_prop user_result ''content'' = JArr (result_block # [text_a])
     \<and> js_prop result_block ''type'' = JStr ''tool_result''"
    by (simp add: example_turns)
  have 2: "js_prop user_text_first ''role'' = JStr ''user''
     \<and> js_prop user_text_first ''content'' = JArr (text_a # [result_block])
     \<and> js_prop text_a ''type'' \<noteq> JStr ''tool_result'' \<and> \<not> nullish text_a
     \<and> (\<forall>x \<in> set [result_block]. \<not> nullish x)"
    by (simp add: example_turns)
  have "format_message example_parse user_result =
       Inr (JObj [(''role'', JStr ''function''),
                  (''parts'', JArr [JObj [(''functionResponse'',
                      JObj [(''name'', JStr ''call_1''), (''response'', JObj [])])]])])"
    using first_tool_result_only
            [of user_result result_block "[text_a]" example_parse, THEN conjunct1, rule_format, OF 1,
             THEN conjunct1]
    by (simp add: result_block_def js_index0_def js_get_def example_parse_def)
  moreover have "format_message example_parse user_text_first =
       Inr (JObj [(''role'', JStr ''user''), (''parts'', JArr [JObj [(''text'', JStr ''a'')]])])"
    using first_tool_result_only
            [of user_text_first text_a "[result_block]" example_parse, THEN conjunct2, rule_format, OF 2]
    by (simp add: text_block_def text_a_def result_block_def is_string_def)
  ultimately show ?thesis using 1 2 by simp
qed

text \<open>
  C1. Round-trip tool linkage, as amended. For every history whose translation returns,
  with an assistant turn carrying a tool call of invocation identifier \<open>X\<close> and a later
  user turn whose first block is a \<^verbatim>\<open>tool_result\<close> referencing \<open>X\<close>: the output contains
  a function-response turn whose name is \<open>X\<close>, and a model turn with the function-call
  fragment of that call, which carries the call's tool name and arguments; the reverse mapping
  of that fragment is the \<^verbatim>\<open>tool_use\<close> block whose \<^verbatim>\<open>id\<close> and \<^verbatim>\<open>name\<close> are the tool
  name. It carries \<open>X\<close> exactly when \<open>X\<close> is the tool name, which is the identifier the
  adapter itself issues.
\<close>

theorem round_trip_tool_linkage:
  assumes "formatHistoryForGemini P msgs = Inr out"
    and "i < j" and "j < length msgs"
    and "js_prop (msgs ! i) ''role'' = JStr ''assistant''"
    and "js_prop (msgs ! i) ''tool_calls'' = JArr calls"
    and "call \<in> set calls"
    and "js_prop call ''id'' = X"
    and "js_prop (msgs ! j) ''role'' = JStr ''user''"
    and "js_prop (msgs ! j) ''content'' = JArr (b # rest)"
    and "js_prop b ''type'' = JStr ''tool_result''"
    and "js_prop b ''tool_use_id'' = X"
  shows "(\<exists>response. function_turn X response \<in> set out)
       \<and> (\<exists>parts fc. JObj [(''role'', JStr ''model''), (''parts'', JArr parts)] \<in> set out
             \<and> JObj [(''functionCall'', fc)] \<in> set parts
             \<and> fc = JObj [(''name'', js_prop (js_prop call ''function'') ''name''),
                          (''args'', js_prop (js_prop call ''function'') ''arguments'')]
             \<and> tool_use_block fc =
                 JObj [(''type'', JStr ''tool_use''),
                       (''id'', js_prop (js_prop call ''function'') ''name''),
                       (''name'', js_prop (js_prop call ''function'') ''name''),
                       (''input'', js_prop (js_prop call ''function'') ''arguments'')]
             \<and> (js_prop (tool_use_block fc) ''id'' = X
                  \<longleftrightarrow> js_prop (js_prop call ''function'') ''name'' = X))"
proof (intro conjI)
  have kj: "known_role (msgs ! j)" using assms(8) by (simp add: known_role_def)
  from formatHistoryForGemini_nth [OF assms(1,3) kj] obtain t where
    t: "t \<in> set out" and ft: "format_message P (msgs ! j) = Inr t" by blast
  have "js_prop (msgs ! j) ''role'' = JStr ''user'' \<and> js_prop (msgs ! j) ''content'' = JArr (b # rest)
      \<and> js_prop b ''type'' = JStr ''tool_result''"
    using assms by simp
  then have nn: "\<not> nullish (msgs ! j)" and nb: "\<not> nullish b"
    by (cases "msgs ! j"; cases b; auto)+
  from ft nn nb assms(8-11) obtain response where "t = function_turn X response"
    by (auto simp: format_message_def js_get_def js_get_opt_def is_array_def Let_def bindE_Inr_iff)
  with t show "\<exists>response. function_turn X response \<in> set out" by blast
next
  have i: "i < length msgs" using assms(2,3) by simp
  have ki: "known_role (msgs ! i)" using assms(4) by (simp add: known_role_def)
  from formatHistoryForGemini_nth [OF assms(1) i ki] obtain t where
    t: "t \<in> set out" and ft: "format_message P (msgs ! i) = Inr t" by blast
  have nn: "\<not> nullish (msgs ! i)" using assms(4) by (cases "msgs ! i") auto
  have ne: "calls \<noteq> []" using assms(6) by auto
  from ft nn ne assms(4,5) obtain parts where
    parts: "mapE functionCall_part calls = Inr parts"
    and tt: "t = JObj [(''role'', JStr ''model''), (''parts'', JArr parts)]"
    by (auto simp: format_message_def js_get_def Let_def bindE_Inr_iff)
  from assms(6) obtain n where n: "n < length calls" "calls ! n = call"
    by (auto simp: in_set_conv_nth)
  with mapE_result [OF parts] have "functionCall_part call = Inr (parts ! n)" "n < length parts"
    by auto
  with functionCall_part_result [of call "parts ! n"]
  have "JObj [(''functionCall'',
                       JObj [(''name'', js_prop (js_prop call ''function'') ''name''),
                             (''args'', js_prop (js_prop call ''function'') ''arguments'')])] \<in> set parts"
    by (metis nth_mem)
  with t tt show "\<exists>parts fc. JObj [(''role'', JStr ''model''), (''parts'', JArr parts)] \<in> set out
             \<and> JObj [(''functionCall'', fc)] \<in> set parts
             \<and> fc = JObj [(''name'', js_prop (js_prop call ''function'') ''name''),
                          (''args'', js_prop (js_prop call ''function'') ''arguments'')]
             \<and> tool_use_block fc =
                 JObj [(''type'', JStr ''tool_use''),
                       (''id'', js_prop (js_prop call ''function'') ''name''),
                       (''name'', js_prop (js_prop call ''function'') ''name''),
                       (''input'', js_prop (js_prop call ''function'') ''arguments'')]
             \<and> (js_prop (tool_use_block fc) ''id'' = X
                  \<longleftrightarrow> js_prop (js_prop call ''function'') ''name'' = X)"
    by (auto simp: tool_use_block_def)
qed

theorem round_trip_tool_linkage_witness:
  "formatHistoryForGemini example_parse [assistant_named_call, user_named_result] =
     Inr [model_call_turn, function_turn (JStr ''search'') (JObj [])]
   \<and> js_prop assistant_named_call ''tool_calls'' = JArr [named_call_record]
   \<and> js_prop named_call_record ''id'' = JStr ''search''
   \<and> js_prop user_named_result ''content'' = JArr [named_result_block]
   \<and> js_prop named_result_block ''type'' = JStr ''tool_result''
   \<and> js_prop named_result_block ''tool_use_id'' = JStr ''search''
   \<and> (\<exists>response. function_turn (JStr ''search'') response
          \<in> set [model_call_turn, function_turn (JStr ''search'') (JObj [])])
   \<and> js_prop (tool_use_block translated_call) ''id'' = JStr ''search''"
proof -
  let ?msgs = "[assistant_named_call, user_named_result]"
  have run: "formatHistoryForGemini example_parse ?msgs =
     Inr [model_call_turn, function_turn (JStr ''search'') (JObj [])]"
    by (simp add: translate_simps example_turns named_call_record_def assistant_named_call_def
          named_result_block_def user_named_result_def)
  have h: "(0::nat) < 1" "1 < length ?msgs"
    "js_prop (?msgs ! 0) ''role'' = JStr ''assistant''"
    "js_prop (?msgs ! 0) ''tool_calls'' = JArr [named_call_record]"
    "named_call_record \<in> set [named_call_record]"
    "js_prop named_call_record ''id'' = JStr ''search''"
    "js_prop (?msgs ! 1) ''role'' = JStr ''user''"
    "js_prop (?msgs ! 1) ''content'' = JArr (named_result_block # [])"
    "js_prop named_result_block ''type'' = JStr ''tool_result''"
    "js_prop named_result_block ''tool_use_id'' = JStr ''search''"
    by (simp_all add: named_call_record_def assistant_named_call_def named_result_block_def
          user_named_result_def)
  note rt = round_trip_tool_linkage [OF run h]
  from rt have a: "\<exists>response. function_turn (JStr ''search'') response
          \<in> set [model_call_turn, function_turn (JStr ''search'') (JObj [])]"
    by blast
  from rt obtain fc where
    "fc = JObj [(''name'', js_prop (js_prop named_call_record ''function'') ''name''),
                (''args'', js_prop (js_prop named_call_record ''function'') ''arguments'')]"
    "js_prop (tool_use_block fc) ''id'' = JStr ''search''
       \<longleftrightarrow> js_prop (js_prop named_call_record ''function'') ''name'' = JStr ''search''"
    by blast
  then have b: "js_prop (tool_use_block translated_call) ''id'' = JStr ''search''"
    by (simp add: named_call_record_def translated_call_def)
  from run h a b show ?thesis by simp
qed

text \<open>
  The claim as first stated fails when the identifier is not the tool name: the call
  \<^verbatim>\<open>call_1\<close> of the tool \<^verbatim>\<open>search\<close> is answered by a function response named
  \<^verbatim>\<open>call_1\<close>, while its function call is re-encoded with the identifier \<^verbatim>\<open>search\<close>.
\<close>

theorem round_trip_tool_linkage_counterexample:
  "formatHistoryForGemini example_parse [assistant_call, user_result] =
     Inr [model_call_turn, function_turn (JStr ''call_1'') (JObj [])]
   \<and> js_prop assistant_call ''tool_calls'' = JArr [call_record]
   \<and> js_prop call_record ''id'' = JStr ''call_1''
   \<and> js_prop user_result ''content'' = JArr [result_block, text_a]
   \<and> js_prop result_block ''type'' = JStr ''tool_result''
   \<and> js_prop result_block ''tool_use_id'' = JStr ''call_1''
   \<and> model_call_turn =
       JObj [(''role'', JStr ''model''), (''parts'', JArr [JObj [(''functionCall'', translated_call)]])]
   \<and> js_prop (tool_use_block translated_call) ''id'' = JStr ''search''
   \<and> js_prop (tool_use_block translated_call) ''id'' \<noteq> JStr ''call_1''"
  by (simp add: translate_simps example_turns tool_use_block_def)

text \<open>
  C5. Schema cleaning. A tool declaration with a schema under \<^verbatim>\<open>input_schema\<close> is
  copied with that key replaced by \<^verbatim>\<open>parameters\<close>, holding the cleaned schema, and its
  other keys unchanged. In a cleaned schema the key \<^verbatim>\<open>additional_properties\<close> occurs at
  no nesting level, and no object of type \<^verbatim>\<open>string\<close> keeps a format other than
  \<^verbatim>\<open>enum\<close> and \<^verbatim>\<open>date-time\<close>. At each object, \<^verbatim>\<open>additional_properties\<close> is dropped,
  \<^verbatim>\<open>format\<close> is dropped exactly when the object's own type is \<^verbatim>\<open>string\<close> and its
  format is neither \<^verbatim>\<open>enum\<close> nor \<^verbatim>\<open>date-time\<close>, an own key \<^verbatim>\<open>__proto__\<close> does not
  become a key of the copy (the assignment to it creates no property), and every other key
  is kept with its value cleaned in turn. Arrays stay arrays, cleaned element by element,
  objects stay objects, and every other value is returned as it is.
\<close>

theorem schema_cleaning:
  "(truthy (js_prop (JObj tool) ''input_schema'') \<longrightarrow>
      (\<exists>kvs. transform_tool (JObj tool) = JObj kvs
         \<and> map_of kvs ''parameters'' = Some (cleanParameters (js_prop (JObj tool) ''input_schema''))
         \<and> map_of kvs ''input_schema'' = None
         \<and> (\<forall>k. k \<noteq> ''parameters'' \<and> k \<noteq> ''input_schema'' \<longrightarrow> map_of kvs k = map_of tool k)))
   \<and> transformToolsForGemini tools = map transform_tool tools
   \<and> \<not> has_key ''additional_properties'' (cleanParameters v)
   \<and> formats_accepted (cleanParameters v)
   \<and> (\<exists>out. cleanParameters (JObj props) = JObj out
         \<and> (\<forall>k. map_of out k =
               (if k = ''additional_properties'' \<or> k = ''__proto__'' then None
                else if k = ''format'' \<and> js_prop (JObj props) ''type'' = JStr ''string''
                        \<and> js_prop (JObj props) ''format'' \<notin> {JStr ''enum'', JStr ''date-time''}
                then None
                else map_option cleanParameters (map_of props k)))
         \<and> (''format'' \<in> fst ` set out \<longleftrightarrow>
               ''format'' \<in> fst ` set props
               \<and> \<not> (js_prop (JObj props) ''type'' = JStr ''string''
                     \<and> js_prop (JObj props) ''format'' \<notin> {JStr ''enum'', JStr ''date-time''})))
   \<and> cleanParameters (JArr xs) = JArr (map cleanParameters xs)
   \<and> (is_array (cleanParameters v) \<longleftrightarrow> is_array v)
   \<and> (is_object (cleanParameters v) \<longleftrightarrow> is_object v)
   \<and> (\<not> is_array v \<and> \<not> is_object v \<longrightarrow> cleanParameters v = v)"
proof -
  have rename: "\<exists>kvs. transform_tool (JObj tool) = JObj kvs
         \<and> map_of kvs ''parameters'' = Some (cleanParameters (js_prop (JObj tool) ''input_schema''))
         \<and> map_of kvs ''input_schema'' = None
         \<and> (\<forall>k. k \<noteq> ''parameters'' \<and> k \<noteq> ''input_schema'' \<longrightarrow> map_of kvs k = map_of tool k)"
    if "truthy (js_prop (JObj tool) ''input_schema'')"
    using that by (simp add: transform_tool_def map_of_set_prop map_of_delete_prop)
  have obj: "\<exists>out. cleanParameters (JObj props) = JObj out
         \<and> (\<forall>k. map_of out k =
               (if k = ''additional_properties'' \<or> k = ''__proto__'' then None
                else if k = ''format'' \<and> js_prop (JObj props) ''type'' = JStr ''string''
                        \<and> js_prop (JObj props) ''format'' \<notin> {JStr ''enum'', JStr ''date-time''}
                then None
                else map_option cleanParameters (map_of props k)))
         \<and> (''format'' \<in> fst ` set out \<longleftrightarrow>
               ''format'' \<in> fst ` set props
               \<and> \<not> (js_prop (JObj props) ''type'' = JStr ''string''
                     \<and> js_prop (JObj props) ''format'' \<notin> {JStr ''enum'', JStr ''date-time''}))"
  proof (intro exI conjI allI)
    show "cleanParameters (JObj props) = JObj (map (\<lambda>(key, v). (key, cleanParameters v))
            (filter (\<lambda>(key, v). kept_key (JObj props) key) props))"
      by simp
    show "map_of (map (\<lambda>(key, v). (key, cleanParameters v))
            (filter (\<lambda>(key, v). kept_key (JObj props) key) props)) k =
               (if k = ''additional_properties'' \<or> k = ''__proto__'' then None
                else if k = ''format'' \<and> js_prop (JObj props) ''type'' = JStr ''string''
                        \<and> js_prop (JObj props) ''format'' \<notin> {JStr ''enum'', JStr ''date-time''}
                then None
                else map_option cleanParameters (map_of props k))" for k
      unfolding map_of_clean_props
      by (auto simp: kept_key_def creates_own_property_def copies_key_def skips_format_def)
    show "''format'' \<in> fst ` set (map (\<lambda>(key, v). (key, cleanParameters v))
            (filter (\<lambda>(key, v). kept_key (JObj props) key) props)) \<longleftrightarrow>
               ''format'' \<in> fst ` set props
               \<and> \<not> (js_prop (JObj props) ''type'' = JStr ''string''
                     \<and> js_prop (JObj props) ''format'' \<notin> {JStr ''enum'', JStr ''date-time''})"
      unfolding keys_clean_props
      by (auto simp: kept_key_def creates_own_property_def copies_key_def skips_format_def)
  qed
  have shape: "(is_array (cleanParameters v) \<longleftrightarrow> is_array v)"
    "(is_object (cleanParameters v) \<longleftrightarrow> is_object v)"
    "\<not> is_array v \<and> \<not> is_object v \<longrightarrow> cleanParameters v = v"
    by (cases v; simp add: is_array_def is_object_def)+
  show ?thesis
    using rename obj shape cleanParameters_no_key [of v] cleanParameters_formats [of v]
    by (simp add: transformToolsForGemini_def)
qed

theorem schema_cleaning_witness:
  "truthy (js_prop (JObj search_tool) ''input_schema'')
   \<and> transformToolsForGemini [JObj search_tool] =
       [JObj [(''name'', JStr ''search''), (''description'', JStr ''Search the catalog''),
              (''parameters'',
               JObj [(''type'', JStr ''object''),
                     (''properties'',
                      JObj [(''q'', JObj [(''type'', JStr ''string'')]),
                            (''kind'', JObj [(''type'', JStr ''string''), (''format'', JStr ''enum'')]),
                            (''n'', JObj [(''type'', JStr ''integer''), (''format'', JStr ''int32'')])]),
                     (''required'', JArr [JStr ''q''])])]]
   \<and> \<not> has_key ''additional_properties'' (cleanParameters search_schema)
   \<and> has_key ''additional_properties'' search_schema
   \<and> cleanParameters email_schema = JObj [(''type'', JStr ''string'')]
   \<and> cleanParameters enum_schema = enum_schema
   \<and> cleanParameters int_schema = int_schema
   \<and> cleanParameters proto_schema = JObj [(''type'', JStr ''object''), (''title'', JStr ''Query'')]
   \<and> \<not> is_array (JNum 3) \<and> \<not> is_object (JNum 3) \<and> cleanParameters (JNum 3) = JNum 3"
proof -
  note sc = schema_cleaning [of search_tool "[JObj search_tool]" search_schema "[]" "[]"]
  have t: "truthy (js_prop (JObj search_tool) ''input_schema'')"
    by (simp add: schema_examples)
  have 1: "transformToolsForGemini [JObj search_tool] =
       [JObj [(''name'', JStr ''search''), (''description'', JStr ''Search the catalog''),
              (''parameters'',
               JObj [(''type'', JStr ''object''),
                     (''properties'',
                      JObj [(''q'', JObj [(''type'', JStr ''string'')]),
                            (''kind'', JObj [(''type'', JStr ''string''), (''format'', JStr ''enum'')]),
                            (''n'', JObj [(''type'', JStr ''integer''), (''format'', JStr ''int32'')])]),
                     (''required'', JArr [JStr ''q''])])]]"
    using sc by (simp add: transform_tool_def schema_examples kept_key_def creates_own_property_def
                   copies_key_def skips_format_def delete_prop_def)
  have 2: "\<not> has_key ''additional_properties'' (cleanParameters search_schema)"
    using sc by blast
  have 3: "has_key ''additional_properties'' search_schema"
    by (simp add: schema_examples)
  have 4: "cleanParameters email_schema = JObj [(''type'', JStr ''string'')]"
    "cleanParameters enum_schema = enum_schema" "cleanParameters int_schema = int_schema"
    "cleanParameters proto_schema = JObj [(''type'', JStr ''object''), (''title'', JStr ''Query'')]"
    by (simp_all add: schema_examples proto_schema_def kept_key_def creates_own_property_def
          copies_key_def skips_format_def)
  have 5: "\<not> is_array (JNum 3) \<and> \<not> is_object (JNum 3) \<and> cleanParameters (JNum 3) = JNum 3"
    using schema_cleaning [of "[]" "[]" "JNum 3" "[]" "[]"] by (simp add: is_array_def is_object_def)
  from t 1 2 3 4 5 show ?thesis by simp
qed

text \<open>
  C9. Normalisation does not mutate its input. When \<^verbatim>\<open>transformToolsForGemini\<close> returns,
  every array and object that existed before the call has the content it had: the result
  array, the copies of the declarations and the cleaned schemas are all newly allocated, and
  every write goes to one of them. So the \<^verbatim>\<open>tools\<close> array lists the same declarations,
  each declaration still has its \<^verbatim>\<open>input_schema\<close>, and every value of the old store,
  the nested schemas included, denotes the same JSON value as before. And the call does
  return for every declaration list that denotes a JSON value (nesting within the depth
  bound, each object with distinct keys): its result denotes the normalised list, while
  \<^verbatim>\<open>tools\<close> denotes what it denoted.
\<close>

theorem normalization_preserves_input:
  "(transformToolsForGemini_h n h tools = Some (h', result) \<longrightarrow>
      length h \<le> length h' \<and> (\<forall>a < length h. h' ! a = h ! a)
      \<and> result = length h
      \<and> (\<forall>k. hread h' tools (Index k) = hread h tools (Index k))
      \<and> (\<forall>k t. hread h tools (Index k) = HRef t \<and> t < length h \<longrightarrow>
             hread h' t (Name ''input_schema'') = hread h t (Name ''input_schema''))
      \<and> (\<forall>m v j. heap_value m h v = Some j \<longrightarrow> heap_value m h' v = Some j))
   \<and> (heap_value (Suc (Suc n)) h (HRef tools) = Some (JArr jts) \<and> distinct_keys (JArr jts) \<longrightarrow>
        (\<exists>h2 r. transformToolsForGemini_h n h tools = Some (h2, r)
           \<and> heap_value (Suc (Suc n)) h2 (HRef r) = Some (JArr (transformToolsForGemini jts))
           \<and> heap_value (Suc (Suc n)) h2 (HRef tools) = Some (JArr jts)))"
proof (rule conjI; rule impI)
  assume run: "transformToolsForGemini_h n h tools = Some (h', result)"
  from transformToolsForGemini_frame [OF run]
  have u: "unchanged h h'" and r: "result = length h" by simp_all
  from run have t: "tools < length h"
    by (auto simp: transformToolsForGemini_h_def split: if_splits)
  from u have same: "hread h' a key = hread h a key" if "a < length h" for a key
    using that by (auto simp: hread_def unchanged_def)
  from u r t same heap_value_unchanged [OF u]
  show "length h \<le> length h' \<and> (\<forall>a < length h. h' ! a = h ! a)
      \<and> result = length h
      \<and> (\<forall>k. hread h' tools (Index k) = hread h tools (Index k))
      \<and> (\<forall>k t. hread h tools (Index k) = HRef t \<and> t < length h \<longrightarrow>
             hread h' t (Name ''input_schema'') = hread h t (Name ''input_schema''))
      \<and> (\<forall>m v j. heap_value m h v = Some j \<longrightarrow> heap_value m h' v = Some j)"
    by (auto simp: unchanged_def)
next
  assume a: "heap_value (Suc (Suc n)) h (HRef tools) = Some (JArr jts) \<and> distinct_keys (JArr jts)"
  then have v: "heap_value (Suc (Suc n)) h (HRef tools) = Some (JArr jts)"
    and d: "distinct_keys (JArr jts)" by simp_all
  from transformToolsForGemini_h_refines [OF v d] obtain h2 r where
    run: "transformToolsForGemini_h n h tools = Some (h2, r)"
    and res: "heap_value (Suc (Suc n)) h2 (HRef r) = Some (JArr (transformToolsForGemini jts))"
    by blast
  from transformToolsForGemini_frame [OF run] have "unchanged h h2" by simp
  from heap_value_unchanged [OF this v] run res
  show "\<exists>h2 r. transformToolsForGemini_h n h tools = Some (h2, r)
           \<and> heap_value (Suc (Suc n)) h2 (HRef r) = Some (JArr (transformToolsForGemini jts))
           \<and> heap_value (Suc (Suc n)) h2 (HRef tools) = Some (JArr jts)"
    by blast
qed

theorem normalization_preserves_input_witness:
  "transformToolsForGemini_h (Suc (Suc (Suc 0))) example_store 4 = Some (example_store_after, 5)
   \<and> example_store_after ! 3 = HObject [(''name'', HStr ''search''), (''input_schema'', HRef 2)]
   \<and> hread example_store_after 3 (Name ''input_schema'') = HRef 2
   \<and> heap_value 5 example_store (HRef 4) = Some (JArr [example_declaration])
   \<and> distinct_keys (JArr [example_declaration])
   \<and> heap_value 5 example_store_after (HRef 4) = Some (JArr [example_declaration])
   \<and> heap_value 5 example_store_after (HRef 5) =
       Some (JArr (transformToolsForGemini [example_declaration]))"
proof -
  note fact = normalization_preserves_input
    [of "Suc (Suc (Suc 0))" example_store 4 example_store_after 5 "[example_declaration]"]
  note frame = fact [THEN conjunct1, rule_format, OF example_store_run]
  have l: "(3::nat) < length example_store" by (simp add: example_store_def)
  from frame l have "example_store_after ! 3 = example_store ! 3" by blast
  then have 1: "example_store_after ! 3 =
      HObject [(''name'', HStr ''search''), (''input_schema'', HRef 2)]"
    by (simp add: example_store_def)
  have "hread example_store 4 (Index 0) = HRef 3 \<and> (3::nat) < length example_store"
    by (simp add: example_store_def hread_def)
  with frame have "hread example_store_after 3 (Name ''input_schema'')
      = hread example_store 3 (Name ''input_schema'')"
    by blast
  then have 2: "hread example_store_after 3 (Name ''input_schema'') = HRef 2"
    by (simp add: example_store_def hread_def)
  have 3: "heap_value (Suc (Suc (Suc (Suc (Suc 0))))) example_store (HRef 4)
             = Some (JArr [example_declaration])"
    by (simp add: example_store_def example_declaration_def)
  have 4: "distinct_keys (JArr [example_declaration])"
    by (simp add: example_declaration_def)
  from fact [THEN conjunct2, rule_format, OF conjI [OF 3 4]] example_store_run
  have 5: "heap_value (Suc (Suc (Suc (Suc (Suc 0))))) example_store_after (HRef 5) =
             Some (JArr (transformToolsForGemini [example_declaration]))"
    and 6: "heap_value (Suc (Suc (Suc (Suc (Suc 0))))) example_store_after (HRef 4) =
             Some (JArr [example_declaration])"
    by auto
  have n: "(5::nat) = Suc (Suc (Suc (Suc (Suc 0))))" by simp
  from example_store_run 1 2 3 4 5 6 show ?thesis unfolding n by simp
qed

end
